theory Spec2Isabelle
  imports Complex_Main "HOL-Library.Monad_Syntax"
begin

section \<open>Data model\<close>

text \<open>
  The file \<^verbatim>\<open>opm/autodiff/BlackoilAmg.hpp\<close> works on dune-istl containers. A
  \<^verbatim>\<open>FieldVector<T,n>\<close> is a list of its \<open>n\<close> components, a \<^verbatim>\<open>FieldMatrix<T,n,m>\<close>
  (or \<^verbatim>\<open>MatrixBlock<T,n,m>\<close>) the list of its \<open>n\<close> rows, a \<^verbatim>\<open>BlockVector\<close> the list
  of its blocks. The compile-time constants \<^verbatim>\<open>Block::rows\<close>, \<^verbatim>\<open>Block::cols\<close>,
  \<^verbatim>\<open>Block::dimension\<close> and \<^verbatim>\<open>COMPONENT_INDEX\<close> are parameters of the functions that
  use them. The field type \<^verbatim>\<open>T\<close> is a type variable with the operations \<open>+\<close>, \<open>*\<close>,
  \<open>0\<close> and \<open>1\<close> that the code uses and no law assumed of them (the additions of a
  \<^verbatim>\<open>double\<close> are not associative): every result below is stated with the operations
  in the order in which the loops perform them.

  A function returns \<open>None\<close> where the C++ has no normal result: an unchecked index
  outside its container, a null pointer dereferenced, an \<^verbatim>\<open>assert\<close> that fails, or
  an \<^verbatim>\<open>ISTLError\<close> thrown by the container.
\<close>

type_synonym 'a FieldVector = "'a list"
type_synonym 'a FieldMatrix = "'a list list"
type_synonym 'a BlockVector = "'a FieldVector list"

text \<open>
  A \<^verbatim>\<open>BCRSMatrix<B>\<close> in compressed row storage: \<open>ncols\<close> is the number of columns, and
  every row is the list of its stored entries, a column index with its block, in
  the order of iteration. \<^verbatim>\<open>N()\<close> is the number of rows.
\<close>

record 'b BCRSMatrix =
  ncols :: nat
  rowdata :: "(nat \<times> 'b) list list"

definition mat_N :: "'b BCRSMatrix \<Rightarrow> nat" where
  "mat_N A = length (rowdata A)"

definition mat_M :: "'b BCRSMatrix \<Rightarrow> nat" where
  "mat_M A = ncols A"

text \<open>The sparsity pattern, row by row, and as the set of stored positions.\<close>

definition pattern :: "'b BCRSMatrix \<Rightarrow> nat list list" where
  "pattern A = map (map fst) (rowdata A)"

definition nonzeros :: "'b BCRSMatrix \<Rightarrow> (nat \<times> nat) set" where
  "nonzeros A = {(r, c). r < length (pattern A) \<and> c \<in> set (pattern A ! r)}"

text \<open>Every stored block has \<open>n\<close> rows of \<open>m\<close> entries.\<close>

definition block_ok :: "nat \<Rightarrow> nat \<Rightarrow> 'a FieldMatrix \<Rightarrow> bool" where
  "block_ok n m B \<longleftrightarrow> length B = n \<and> list_all (\<lambda>r. length r = m) B"

definition blocks_ok :: "nat \<Rightarrow> nat \<Rightarrow> 'a FieldMatrix BCRSMatrix \<Rightarrow> bool" where
  "blocks_ok n m A \<longleftrightarrow> list_all (list_all (\<lambda>e. block_ok n m (snd e))) (rowdata A)"

section \<open>Quasi-IMPES scaling of the matrix\<close>

text \<open>The statement \<^verbatim>\<open>block[pressureIndex][j] += block[i][j]\<close>.\<close>

definition addRowEntry ::
  "nat \<Rightarrow> nat \<Rightarrow> nat \<Rightarrow> 'a::plus FieldMatrix \<Rightarrow> 'a FieldMatrix option" where
  "addRowEntry pressureIndex i j block =
     (if pressureIndex < length block \<and> i < length block \<and>
         j < length (block ! pressureIndex) \<and> j < length (block ! i)
      then Some (block[pressureIndex :=
                   (block ! pressureIndex)[j := block ! pressureIndex ! j + block ! i ! j]])
      else None)"

text \<open>The loop over \<open>j\<close>, for the columns still to visit.\<close>

fun scaleBlock_j ::
  "nat \<Rightarrow> nat \<Rightarrow> nat list \<Rightarrow> 'a::plus FieldMatrix \<Rightarrow> 'a FieldMatrix option" where
  "scaleBlock_j pressureIndex i [] block = Some block"
| "scaleBlock_j pressureIndex i (j # js) block =
     addRowEntry pressureIndex i j block \<bind> scaleBlock_j pressureIndex i js"

text \<open>The loop over \<open>i\<close>, with its test \<^verbatim>\<open>i != pressureIndex\<close>.\<close>

fun scaleBlock_i ::
  "nat \<Rightarrow> nat \<Rightarrow> nat list \<Rightarrow> 'a::plus FieldMatrix \<Rightarrow> 'a FieldMatrix option" where
  "scaleBlock_i cols pressureIndex [] block = Some block"
| "scaleBlock_i cols pressureIndex (i # rest) block =
     (if i \<noteq> pressureIndex then scaleBlock_j pressureIndex i [0..<cols] block
      else Some block) \<bind> scaleBlock_i cols pressureIndex rest"

definition scaleBlock ::
  "nat \<Rightarrow> nat \<Rightarrow> nat \<Rightarrow> 'a::plus FieldMatrix \<Rightarrow> 'a FieldMatrix option" where
  "scaleBlock rows cols pressureIndex block =
     scaleBlock_i cols pressureIndex [0..<rows] block"

text \<open>The loop over the blocks of one row, and the loop over the rows.\<close>

fun scaleRow ::
  "nat \<Rightarrow> nat \<Rightarrow> nat \<Rightarrow> (nat \<times> 'a::plus FieldMatrix) list
     \<Rightarrow> (nat \<times> 'a FieldMatrix) list option" where
  "scaleRow rows cols pressureIndex [] = Some []"
| "scaleRow rows cols pressureIndex (e # rest) =
     do {
       block \<leftarrow> scaleBlock rows cols pressureIndex (snd e);
       rest' \<leftarrow> scaleRow rows cols pressureIndex rest;
       Some ((fst e, block) # rest')
     }"

fun scaleRows ::
  "nat \<Rightarrow> nat \<Rightarrow> nat \<Rightarrow> (nat \<times> 'a::plus FieldMatrix) list list
     \<Rightarrow> (nat \<times> 'a FieldMatrix) list list option" where
  "scaleRows rows cols pressureIndex [] = Some []"
| "scaleRows rows cols pressureIndex (row # rest) =
     do {
       row' \<leftarrow> scaleRow rows cols pressureIndex row;
       rest' \<leftarrow> scaleRows rows cols pressureIndex rest;
       Some (row' # rest')
     }"

definition scaleMatrixInPlace ::
  "nat \<Rightarrow> nat \<Rightarrow> nat \<Rightarrow> 'a::plus FieldMatrix BCRSMatrix
     \<Rightarrow> 'a FieldMatrix BCRSMatrix option" where
  "scaleMatrixInPlace rows cols pressureIndex matrix =
     map_option (\<lambda>rs. matrix\<lparr>rowdata := rs\<rparr>)
       (scaleRows rows cols pressureIndex (rowdata matrix))"

text \<open>
  Matrices live in a store, a list addressed by position; \<^verbatim>\<open>new Matrix(...)\<close>
  allocates the next free address. An operator holds a reference to its matrix:
  \<^verbatim>\<open>MatrixAdapter\<close> the reference alone, \<^verbatim>\<open>OverlappingSchwarzOperator\<close> also the
  communication object. \<^verbatim>\<open>createOperator\<close> is overloaded on its first argument.
\<close>

type_synonym 'a matstore = "'a FieldMatrix BCRSMatrix list"

datatype 'c Operator = MatrixAdapter nat | OverlappingSchwarzOperator nat 'c

fun mat_ref :: "'c Operator \<Rightarrow> nat" where
  "mat_ref (MatrixAdapter a) = a"
| "mat_ref (OverlappingSchwarzOperator a comm) = a"

definition getmat :: "'a matstore \<Rightarrow> 'c Operator \<Rightarrow> 'a FieldMatrix BCRSMatrix option" where
  "getmat h op = (if mat_ref op < length h then Some (h ! mat_ref op) else None)"

fun createOperator :: "'c Operator \<Rightarrow> nat \<Rightarrow> 'c \<Rightarrow> 'c Operator" where
  "createOperator (MatrixAdapter a) matrix comm = MatrixAdapter matrix"
| "createOperator (OverlappingSchwarzOperator a c) matrix comm =
     OverlappingSchwarzOperator matrix comm"

definition scaleMatrixQuasiImpes ::
  "nat \<Rightarrow> nat \<Rightarrow> 'a::plus matstore \<Rightarrow> 'c Operator \<Rightarrow> 'c \<Rightarrow> nat
     \<Rightarrow> ((nat \<times> 'c Operator) \<times> 'a matstore) option" where
  "scaleMatrixQuasiImpes rows cols h op comm pressureIndex =
     do {
       copy \<leftarrow> getmat h op;
       let matrix = length h;
       let h1 = h @ [copy];
       scaled \<leftarrow> scaleMatrixInPlace rows cols pressureIndex (h1 ! matrix);
       let h2 = h1[matrix := scaled];
       Some ((matrix, createOperator op matrix comm), h2)
     }"

text \<open>
  The indices that pass the test \<^verbatim>\<open>i != pressureIndex\<close>, in the order of the loop, and
  what the loop leaves in column \<open>j\<close> of the pressure row when that entry starts at
  \<open>x\<close>: the entries of the other rows of \<open>B\<close> are added to \<open>x\<close> one after the other.
\<close>

definition otherRows :: "nat \<Rightarrow> nat \<Rightarrow> nat list" where
  "otherRows n p = filter (\<lambda>i. i \<noteq> p) [0..<n]"

definition addOthers :: "nat \<Rightarrow> nat \<Rightarrow> 'a::plus FieldMatrix \<Rightarrow> nat \<Rightarrow> 'a \<Rightarrow> 'a" where
  "addOthers n p B j x = foldl (+) x (map (\<lambda>i. B ! i ! j) (otherRows n p))"

text \<open>The block that the loops compute, in closed form: every other row is added to
  the pressure row in the order of the loop over \<open>i\<close>.\<close>

definition scaledBlock :: "nat \<Rightarrow> nat \<Rightarrow> nat \<Rightarrow> 'a::plus FieldMatrix \<Rightarrow> 'a FieldMatrix" where
  "scaledBlock n m p B =
     B[p := map (\<lambda>j. foldl (+) (B ! p ! j) (map (\<lambda>i. B ! i ! j) (otherRows n p))) [0..<m]]"

text \<open>The matrix whose every block is the closed form of the loops.\<close>

definition scaledMatrix ::
  "nat \<Rightarrow> nat \<Rightarrow> nat \<Rightarrow> 'a::plus FieldMatrix BCRSMatrix \<Rightarrow> 'a FieldMatrix BCRSMatrix" where
  "scaledMatrix n m p A =
     A\<lparr>rowdata := map (map (\<lambda>e. (fst e, scaledBlock n m p (snd e)))) (rowdata A)\<rparr>"

text \<open>A small matrix of two rows with three \<open>2\<times>2\<close> blocks, for the concrete instances.\<close>

definition exampleBlock :: "int FieldMatrix" where
  "exampleBlock = [[1, 2], [3, 4]]"

definition exampleMatrix :: "int FieldMatrix BCRSMatrix" where
  "exampleMatrix = \<lparr>ncols = 2, rowdata = [[(0, exampleBlock)], [(0, exampleBlock), (1, exampleBlock)]]\<rparr>"

section \<open>Quasi-IMPES scaling of a vector\<close>

text \<open>
  The loop over \<open>i\<close> of \<^verbatim>\<open>scaleVectorQuasiImpes\<close> on one block, for the indices still
  to visit: \<^verbatim>\<open>block[pressureIndex] += block[i]\<close> where \<^verbatim>\<open>i != pressureIndex\<close>.
\<close>

fun scaleVectorBlock ::
  "nat \<Rightarrow> nat list \<Rightarrow> 'a::plus FieldVector \<Rightarrow> 'a FieldVector option" where
  "scaleVectorBlock pressureIndex [] block = Some block"
| "scaleVectorBlock pressureIndex (i # rest) block =
     (if i \<noteq> pressureIndex
      then (if pressureIndex < length block \<and> i < length block
            then Some (block[pressureIndex := block ! pressureIndex + block ! i])
            else None)
      else Some block) \<bind> scaleVectorBlock pressureIndex rest"

fun scaleVectorQuasiImpes ::
  "nat \<Rightarrow> 'a::plus BlockVector \<Rightarrow> nat \<Rightarrow> 'a BlockVector option" where
  "scaleVectorQuasiImpes dimension [] pressureIndex = Some []"
| "scaleVectorQuasiImpes dimension (block # rest) pressureIndex =
     do {
       block' \<leftarrow> scaleVectorBlock pressureIndex [0..<dimension] block;
       rest' \<leftarrow> scaleVectorQuasiImpes dimension rest pressureIndex;
       Some (block' # rest')
     }"

text \<open>The vector that the loops compute, in closed form.\<close>

definition scaledVectorBlock :: "nat \<Rightarrow> nat \<Rightarrow> 'a::plus FieldVector \<Rightarrow> 'a FieldVector" where
  "scaledVectorBlock n p block =
     block[p := foldl (+) (block ! p) (map (\<lambda>i. block ! i) (otherRows n p))]"

definition scaledVector :: "nat \<Rightarrow> nat \<Rightarrow> 'a::plus BlockVector \<Rightarrow> 'a BlockVector" where
  "scaledVector n p v = map (scaledVectorBlock n p) v"

section \<open>The level transfer policy\<close>

text \<open>
  The parameter block \<^verbatim>\<open>CPRParameter\<close> (declared in \<^verbatim>\<open>CPRPreconditioner.hpp\<close>), with
  the fields that this file reads. Tolerances are real numbers.
\<close>

record CPRParameter =
  cpr_use_amg :: bool
  cpr_solver_tol :: real
  cpr_max_ell_iter :: int
  cpr_solver_verbose :: bool
  cpr_use_bicgstab :: bool
  cpr_pressure_aggregation :: bool

text \<open>
  \<^verbatim>\<open>AggregatesMap::UNAGGREGATED\<close> of dune-istl is the largest value of the vertex type,
  \<^verbatim>\<open>std::size_t\<close>, here of 64 bits; \<^verbatim>\<open>ISOLATED\<close> is the value below it.
\<close>

definition UNAGGREGATED :: nat where
  "UNAGGREGATED = 2 ^ 64 - 1"

definition ISOLATED :: nat where
  "ISOLATED = 2 ^ 64 - 2"

text \<open>
  The members of \<^verbatim>\<open>OneComponentAggregationLevelTransferPolicy\<close> and the buffers
  \<^verbatim>\<open>lhs_\<close>, \<^verbatim>\<open>rhs_\<close> of its base class. A shared pointer that may be null, and
  \<^verbatim>\<open>prolongDamp_\<close>, which the constructor does not initialise, are options. The coarse
  matrix has scalar entries.
\<close>

record ('a, 'crit, 'c) LevelTransferPolicy =
  prolongDamp :: "'a option"
  aggregatesMap :: "nat list option"
  criterion :: 'crit
  communication :: 'c
  coarseLevelCommunication :: "'c option"
  coarseLevelMatrix :: "'a BCRSMatrix option"
  pressure_aggregation :: bool
  lhs :: "'a list"
  rhs :: "'a list"

definition new_LevelTransferPolicy ::
  "'crit \<Rightarrow> 'c \<Rightarrow> bool \<Rightarrow> ('a, 'crit, 'c) LevelTransferPolicy" where
  "new_LevelTransferPolicy crit comm cpr_pressure_aggregation_arg =
     \<lparr>prolongDamp = None, aggregatesMap = None, criterion = crit, communication = comm,
      coarseLevelCommunication = None, coarseLevelMatrix = None,
      pressure_aggregation = cpr_pressure_aggregation_arg, lhs = [], rhs = []\<rparr>"

text \<open>\<^verbatim>\<open>(*aggregatesMap_)[k]\<close>: the pointer may be null, the index out of range.\<close>

definition aggregateOf :: "nat list option \<Rightarrow> nat \<Rightarrow> nat option" where
  "aggregateOf am k =
     (case am of None \<Rightarrow> None
      | Some a \<Rightarrow> if k < length a then Some (a ! k) else None)"

subsection \<open>calculateCoarseEntries\<close>

text \<open>
  \<^verbatim>\<open>row[j] += v\<close> on a compressed row: the entry with column index \<open>j\<close> is looked
  up, and \<^verbatim>\<open>ISTLError\<close> is thrown when the row stores none.
\<close>

fun addToRowEntry :: "nat \<Rightarrow> 'a::plus \<Rightarrow> (nat \<times> 'a) list \<Rightarrow> (nat \<times> 'a) list option" where
  "addToRowEntry j v [] = None"
| "addToRowEntry j v (e # es) =
     (if fst e = j then Some ((j, snd e + v) # es)
      else map_option ((#) e) (addToRowEntry j v es))"

definition addToEntry ::
  "nat \<Rightarrow> nat \<Rightarrow> 'a::plus \<Rightarrow> (nat \<times> 'a) list list \<Rightarrow> (nat \<times> 'a) list list option" where
  "addToEntry i j v C =
     (if i < length C then map_option (\<lambda>row. C[i := row]) (addToRowEntry j v (C ! i))
      else None)"

text \<open>The loop over the entries of one fine row, whose aggregate is \<open>i\<close>.\<close>

fun coarseEntries_row ::
  "nat list option \<Rightarrow> nat \<Rightarrow> nat \<Rightarrow> (nat \<times> 'a::plus FieldMatrix) list
     \<Rightarrow> (nat \<times> 'a) list list \<Rightarrow> (nat \<times> 'a) list list option" where
  "coarseEntries_row am ci i [] C = Some C"
| "coarseEntries_row am ci i (entry # rest) C =
     do {
       j \<leftarrow> aggregateOf am (fst entry);
       C' \<leftarrow> (if j \<noteq> ISOLATED
              then (if ci < length (snd entry) \<and> ci < length (snd entry ! ci)
                    then addToEntry i j (snd entry ! ci ! ci) C
                    else None)
              else Some C);
       coarseEntries_row am ci i rest C'
     }"

text \<open>The loop over the fine rows; \<open>r\<close> is \<^verbatim>\<open>row.index()\<close>.\<close>

fun coarseEntries_rows ::
  "nat list option \<Rightarrow> nat \<Rightarrow> nat \<Rightarrow> (nat \<times> 'a::plus FieldMatrix) list list
     \<Rightarrow> (nat \<times> 'a) list list \<Rightarrow> (nat \<times> 'a) list list option" where
  "coarseEntries_rows am ci r [] C = Some C"
| "coarseEntries_rows am ci r (row # rest) C =
     do {
       i \<leftarrow> aggregateOf am r;
       C' \<leftarrow> (if i \<noteq> ISOLATED then coarseEntries_row am ci i row C else Some C);
       coarseEntries_rows am ci (Suc r) rest C'
     }"

definition calculateCoarseEntries ::
  "nat \<Rightarrow> ('a::{plus,zero}, 'crit, 'c) LevelTransferPolicy \<Rightarrow> 'a FieldMatrix BCRSMatrix
     \<Rightarrow> ('a, 'crit, 'c) LevelTransferPolicy option" where
  "calculateCoarseEntries ci pol fineMatrix =
     do {
       C \<leftarrow> coarseLevelMatrix pol;
       let zeroed = map (map (\<lambda>e. (fst e, 0))) (rowdata C);
       entries \<leftarrow> coarseEntries_rows (aggregatesMap pol) ci 0 (rowdata fineMatrix) zeroed;
       Some (pol\<lparr>coarseLevelMatrix := Some (C\<lparr>rowdata := entries\<rparr>)\<rparr>)
     }"

subsection \<open>createCoarseLevelSystem\<close>

text \<open>
  \<^verbatim>\<open>createIter.insert(col.index())\<close> adds a column index to the pattern of the row
  under construction, a sorted set; \<^verbatim>\<open>++createIter\<close> closes the row.
\<close>

definition insertIndex :: "nat \<Rightarrow> nat list \<Rightarrow> nat list" where
  "insertIndex c cs = (if c \<in> set cs then cs else insort c cs)"

definition rowPattern :: "(nat \<times> 'b) list \<Rightarrow> nat list" where
  "rowPattern row = foldl (\<lambda>cs col. insertIndex (fst col) cs) [] row"

text \<open>
  The second pass over one row: \<^verbatim>\<open>col\<close> and \<^verbatim>\<open>coarseCol\<close> advance together, the
  assertion compares their indices, and the coarse entry receives the component
  \<^verbatim>\<open>[COMPONENT_INDEX][COMPONENT_INDEX]\<close> of the fine block.
\<close>

fun fillRow ::
  "nat \<Rightarrow> (nat \<times> 'a FieldMatrix) list \<Rightarrow> (nat \<times> 'a) list \<Rightarrow> (nat \<times> 'a) list option" where
  "fillRow ci [] coarseRow = Some coarseRow"
| "fillRow ci (col # rest) [] = None"
| "fillRow ci (col # rest) (coarseCol # coarseRest) =
     (if fst col = fst coarseCol \<and> ci < length (snd col) \<and> ci < length (snd col ! ci)
      then map_option ((#) (fst coarseCol, snd col ! ci ! ci)) (fillRow ci rest coarseRest)
      else None)"

fun fillRows ::
  "nat \<Rightarrow> (nat \<times> 'a FieldMatrix) list list \<Rightarrow> (nat \<times> 'a) list list
     \<Rightarrow> (nat \<times> 'a) list list option" where
  "fillRows ci [] coarse = Some coarse"
| "fillRows ci (row # rest) [] = None"
| "fillRows ci (row # rest) (coarseRow # coarseRest) =
     do {
       coarseRow' \<leftarrow> fillRow ci row coarseRow;
       coarseRest' \<leftarrow> fillRows ci rest coarseRest;
       Some (coarseRow' # coarseRest')
     }"

text \<open>
  What the aggregation branch obtains from dune-istl (graph creation,
  \<^verbatim>\<open>buildAggregates\<close>, \<^verbatim>\<open>IndicesCoarsener::coarsen\<close>, \<^verbatim>\<open>AggregatesPublisher\<close>, and the
  \<^verbatim>\<open>ConnectivityConstructor\<close> behind \<^verbatim>\<open>buildCoarseSparseMatrix\<close>): the aggregates map,
  the number of aggregates, the column indices of every row of the coarse matrix, and
  the coarse communication object. It is a parameter of \<open>createCoarseLevelSystem\<close>.
\<close>

record 'c Aggregation =
  agg_map :: "nat list"
  agg_count :: nat
  agg_pattern :: "nat \<Rightarrow> nat list"
  agg_comm :: 'c

text \<open>
  A matrix or vector that has just been allocated or resized holds values that the
  C++ leaves unspecified; they are \<open>0\<close> here, and each is written before it is read.
  The calls that build and free the global lookup of the communication objects, and
  the construction of the coarse operator from the coarse matrix and the coarse
  communication, change none of the members modelled here.
\<close>

definition createCoarseLevelSystem ::
  "('crit \<Rightarrow> 'c \<Rightarrow> 'a FieldMatrix BCRSMatrix \<Rightarrow> 'c Aggregation) \<Rightarrow> nat
     \<Rightarrow> ('a::{plus,zero,one}, 'crit, 'c) LevelTransferPolicy \<Rightarrow> 'a matstore \<Rightarrow> 'c Operator
     \<Rightarrow> ('a, 'crit, 'c) LevelTransferPolicy option" where
  "createCoarseLevelSystem buildAggregation ci pol h fineOperator =
     do {
       fineLevelMatrix \<leftarrow> getmat h fineOperator;
       let pol1 = pol\<lparr>prolongDamp := Some 1\<rparr>;
       pol2 \<leftarrow>
         (if pressure_aggregation pol1 then
            (let agg = buildAggregation (criterion pol1) (communication pol1) fineLevelMatrix;
                 aggregates = agg_count agg;
                 coarse = \<lparr>ncols = aggregates,
                           rowdata = map (\<lambda>I. map (\<lambda>c. (c, 0)) (agg_pattern agg I))
                                       [0..<aggregates]\<rparr>
             in calculateCoarseEntries ci
                  (pol1\<lparr>aggregatesMap := Some (agg_map agg),
                         coarseLevelCommunication := Some (agg_comm agg),
                         coarseLevelMatrix := Some coarse\<rparr>)
                  fineLevelMatrix)
          else
            do {
              let created = map (\<lambda>row. map (\<lambda>c. (c, 0)) (rowPattern row))
                              (rowdata fineLevelMatrix);
              filled \<leftarrow> fillRows ci (rowdata fineLevelMatrix) created;
              Some (pol1\<lparr>coarseLevelMatrix :=
                             Some \<lparr>ncols = mat_M fineLevelMatrix, rowdata = filled\<rparr>,
                          coarseLevelCommunication := Some (communication pol1)\<rparr>)
            });
       C \<leftarrow> coarseLevelMatrix pol2;
       Some (pol2\<lparr>lhs := replicate (mat_M C) 0, rhs := replicate (mat_N C) 0\<rparr>)
     }"

subsection \<open>moveToCoarseLevel\<close>

text \<open>The two loops over the blocks of the fine vector; \<open>k\<close> is \<^verbatim>\<open>block-begin\<close>.\<close>

fun restrictAggregated ::
  "nat list option \<Rightarrow> nat \<Rightarrow> nat \<Rightarrow> 'a::plus BlockVector \<Rightarrow> 'a list \<Rightarrow> 'a list option" where
  "restrictAggregated am ci k [] r = Some r"
| "restrictAggregated am ci k (block # rest) r =
     do {
       vertex \<leftarrow> aggregateOf am k;
       r' \<leftarrow> (if vertex \<noteq> ISOLATED
              then (if vertex < length r \<and> ci < length block
                    then Some (r[vertex := r ! vertex + block ! ci])
                    else None)
              else Some r);
       restrictAggregated am ci (Suc k) rest r'
     }"

fun restrictDirect :: "nat \<Rightarrow> nat \<Rightarrow> 'a BlockVector \<Rightarrow> 'a list \<Rightarrow> 'a list option" where
  "restrictDirect ci k [] r = Some r"
| "restrictDirect ci k (block # rest) r =
     (if k < length r \<and> ci < length block
      then restrictDirect ci (Suc k) rest (r[k := block ! ci])
      else None)"

definition moveToCoarseLevel ::
  "nat \<Rightarrow> ('a::{plus,zero}, 'crit, 'c) LevelTransferPolicy \<Rightarrow> 'a BlockVector
     \<Rightarrow> ('a, 'crit, 'c) LevelTransferPolicy option" where
  "moveToCoarseLevel ci pol fine =
     do {
       let zeroed = map (\<lambda>x. 0) (rhs pol);
       r \<leftarrow> (if pressure_aggregation pol
             then restrictAggregated (aggregatesMap pol) ci 0 fine zeroed
             else restrictDirect ci 0 fine zeroed);
       Some (pol\<lparr>rhs := r, lhs := map (\<lambda>x. 0) (lhs pol)\<rparr>)
     }"

subsection \<open>moveToFineLevel\<close>

fun prolongAggregated ::
  "nat list option \<Rightarrow> nat \<Rightarrow> nat \<Rightarrow> 'a::plus list \<Rightarrow> 'a BlockVector \<Rightarrow> 'a BlockVector option" where
  "prolongAggregated am ci k l [] = Some []"
| "prolongAggregated am ci k l (block # rest) =
     do {
       vertex \<leftarrow> aggregateOf am k;
       block' \<leftarrow> (if vertex \<noteq> ISOLATED
                  then (if vertex < length l \<and> ci < length block
                        then Some (block[ci := block ! ci + l ! vertex])
                        else None)
                  else Some block);
       rest' \<leftarrow> prolongAggregated am ci (Suc k) l rest;
       Some (block' # rest')
     }"

fun prolongDirect :: "nat \<Rightarrow> nat \<Rightarrow> 'a list \<Rightarrow> 'a BlockVector \<Rightarrow> 'a BlockVector option" where
  "prolongDirect ci k l [] = Some []"
| "prolongDirect ci k l (block # rest) =
     (if k < length l \<and> ci < length block
      then map_option ((#) (block[ci := l ! k])) (prolongDirect ci (Suc k) l rest)
      else None)"

text \<open>
  \<^verbatim>\<open>copyOwnerToAll\<close> belongs to the communication object and is a parameter. That of
  \<^verbatim>\<open>Dune::Amg::SequentialInformation\<close> has an empty body.
\<close>

definition sequential_copyOwnerToAll :: "'c \<Rightarrow> 'v \<Rightarrow> 'v \<Rightarrow> 'v" where
  "sequential_copyOwnerToAll comm source dest = dest"

definition moveToFineLevel ::
  "('c \<Rightarrow> 'a BlockVector \<Rightarrow> 'a BlockVector \<Rightarrow> 'a BlockVector) \<Rightarrow> nat
     \<Rightarrow> ('a::{plus,times}, 'crit, 'c) LevelTransferPolicy \<Rightarrow> 'a BlockVector
     \<Rightarrow> (('a, 'crit, 'c) LevelTransferPolicy \<times> 'a BlockVector) option" where
  "moveToFineLevel copyOwnerToAll ci pol fine =
     (if pressure_aggregation pol then
        do {
          damp \<leftarrow> prolongDamp pol;
          let l = map (\<lambda>x. x * damp) (lhs pol);
          fine' \<leftarrow> prolongAggregated (aggregatesMap pol) ci 0 l fine;
          Some (pol\<lparr>lhs := l\<rparr>, copyOwnerToAll (communication pol) fine' fine')
        }
      else
        do {
          fine' \<leftarrow> prolongDirect ci 0 (lhs pol) fine;
          Some (pol, fine')
        })"

text \<open>
  Restriction, the coarse solution set to the restricted right-hand side, and
  prolongation onto the zero vector of the shape of \<open>fine\<close>.
\<close>

definition restrictThenProlong ::
  "('c \<Rightarrow> 'a BlockVector \<Rightarrow> 'a BlockVector \<Rightarrow> 'a BlockVector) \<Rightarrow> nat
     \<Rightarrow> ('a::{plus,times,zero}, 'crit, 'c) LevelTransferPolicy \<Rightarrow> 'a BlockVector
     \<Rightarrow> 'a BlockVector option" where
  "restrictThenProlong copyOwnerToAll ci pol fine =
     do {
       pol1 \<leftarrow> moveToCoarseLevel ci pol fine;
       (pol2, fine') \<leftarrow> moveToFineLevel copyOwnerToAll ci (pol1\<lparr>lhs := rhs pol1\<rparr>)
                          (map (map (\<lambda>x. 0)) fine);
       Some fine'
     }"

section \<open>The coarse solver\<close>

text \<open>
  The members of \<^verbatim>\<open>AMGInverseOperator\<close>; each of the two unique pointers is an option.
\<close>

record ('amg, 'sm, 'op, 'c) AMGInverseOperator =
  inv_param :: CPRParameter
  inv_amg :: "'amg option"
  inv_smoother :: "'sm option"
  inv_op :: 'op
  inv_comm :: 'c

definition new_AMGInverseOperator ::
  "('op \<Rightarrow> 'crit \<Rightarrow> 'args \<Rightarrow> 'c \<Rightarrow> 'amg) \<Rightarrow> ('op \<Rightarrow> 'c \<Rightarrow> 'args \<Rightarrow> 'sm)
     \<Rightarrow> CPRParameter \<Rightarrow> 'op \<Rightarrow> 'crit \<Rightarrow> 'args \<Rightarrow> 'c
     \<Rightarrow> ('amg, 'sm, 'op, 'c) AMGInverseOperator" where
  "new_AMGInverseOperator newAMG constructFn param op crit args comm =
     (if cpr_use_amg param
      then \<lparr>inv_param = param, inv_amg = Some (newAMG op crit args comm),
            inv_smoother = None, inv_op = op, inv_comm = comm\<rparr>
      else \<lparr>inv_param = param, inv_amg = None,
            inv_smoother = Some (constructFn op comm args), inv_op = op, inv_comm = comm\<rparr>)"

text \<open>The preconditioner that \<^verbatim>\<open>prec\<close> points to.\<close>

datatype ('amg, 'sm) Preconditioner = AMGPreconditioner 'amg | SmootherPreconditioner 'sm

text \<open>
  What \<^verbatim>\<open>apply\<close> uses of dune-istl: the scalar product of a communication object, its
  rank, and the two Krylov solvers. A solver is built from the operator, the scalar
  product, the preconditioner, the tolerance, the iteration limit and the verbosity;
  its \<^verbatim>\<open>apply(x,b,res)\<close> returns the new \<open>x\<close>, \<open>b\<close> and \<open>res\<close>.
\<close>

record ('amg, 'sm, 'op, 'c, 'sp, 'x, 'res) Krylov =
  createScalarProduct :: "'c \<Rightarrow> 'sp"
  rank :: "'c \<Rightarrow> int"
  BiCGSTABSolver :: "'op \<Rightarrow> 'sp \<Rightarrow> ('amg, 'sm) Preconditioner \<Rightarrow> real \<Rightarrow> int \<Rightarrow> int
                       \<Rightarrow> 'x \<Rightarrow> 'x \<Rightarrow> 'res \<Rightarrow> 'x \<times> 'x \<times> 'res"
  CGSolver :: "'op \<Rightarrow> 'sp \<Rightarrow> ('amg, 'sm) Preconditioner \<Rightarrow> real \<Rightarrow> int \<Rightarrow> int
                 \<Rightarrow> 'x \<Rightarrow> 'x \<Rightarrow> 'res \<Rightarrow> 'x \<times> 'x \<times> 'res"

definition AMGInverseOperator_apply ::
  "('amg, 'sm, 'op, 'c, 'sp, 'x, 'res) Krylov \<Rightarrow> ('amg, 'sm, 'op, 'c) AMGInverseOperator
     \<Rightarrow> 'x \<Rightarrow> 'x \<Rightarrow> real \<Rightarrow> 'res \<Rightarrow> ('x \<times> 'x \<times> 'res) option" where
  "AMGInverseOperator_apply K amgInv x b reduction res =
     (let sp = createScalarProduct K (inv_comm amgInv);
          prec = (case inv_amg amgInv of
                    Some a \<Rightarrow> Some (AMGPreconditioner a)
                  | None \<Rightarrow> map_option SmootherPreconditioner (inv_smoother amgInv));
          tolerance = cpr_solver_tol (inv_param amgInv);
          maxit = cpr_max_ell_iter (inv_param amgInv);
          verbosity = (if cpr_solver_verbose (inv_param amgInv) \<and> rank K (inv_comm amgInv) = 0
                       then 1 else 0)
      in case prec of
           None \<Rightarrow> None
         | Some pr \<Rightarrow>
             if cpr_use_bicgstab (inv_param amgInv)
             then Some (BiCGSTABSolver K (inv_op amgInv) sp pr tolerance maxit verbosity x b res)
             else Some (CGSolver K (inv_op amgInv) sp pr tolerance maxit verbosity x b res))"

text \<open>The overload without a reduction passes \<^verbatim>\<open>1e-8\<close>.\<close>

definition AMGInverseOperator_apply_default ::
  "('amg, 'sm, 'op, 'c, 'sp, 'x, 'res) Krylov \<Rightarrow> ('amg, 'sm, 'op, 'c) AMGInverseOperator
     \<Rightarrow> 'x \<Rightarrow> 'x \<Rightarrow> 'res \<Rightarrow> ('x \<times> 'x \<times> 'res) option" where
  "AMGInverseOperator_apply_default K amgInv x b res =
     AMGInverseOperator_apply K amgInv x b (1 / 10 ^ 8) res"

section \<open>The preconditioner\<close>

text \<open>
  \<^verbatim>\<open>constructSmoother\<close> hands the matrix of the operator, the communication object and
  the smoother arguments to \<^verbatim>\<open>ConstructionTraits<Smoother>::construct\<close>, a parameter.
\<close>

definition constructSmoother ::
  "('a FieldMatrix BCRSMatrix \<Rightarrow> 'c \<Rightarrow> 'args \<Rightarrow> 'sm) \<Rightarrow> 'a matstore \<Rightarrow> 'c Operator
     \<Rightarrow> 'args \<Rightarrow> 'c \<Rightarrow> 'sm option" where
  "constructSmoother constructFn h op smargs comm =
     map_option (\<lambda>A. constructFn A comm smargs) (getmat h op)"

text \<open>
  The members of \<^verbatim>\<open>BlackoilAmg\<close>. The coarse solver policy keeps the parameters, the
  smoother arguments and the criterion; the two-level method of dune-istl is a value
  of a type of its own.
\<close>

record ('c, 'sm, 'args, 'crit, 'a, 'tlm) BlackoilAmg =
  param :: CPRParameter
  scaledMatrixOperator :: "nat \<times> 'c Operator"
  smoother :: 'sm
  levelTransferPolicy :: "('a, 'crit, 'c) LevelTransferPolicy"
  coarseSolverPolicy :: "CPRParameter \<times> 'args \<times> 'crit"
  twoLevelMethod :: 'tlm

text \<open>
  The constructor. The constructor of \<^verbatim>\<open>TwoLevelMethod\<close> is a parameter; it receives
  the scaled operator with its matrix, the smoother, the two policies and the numbers
  of pre- and post-smoothing steps, \<open>0\<close> and \<open>1\<close>.
\<close>

definition new_BlackoilAmg ::
  "('a FieldMatrix BCRSMatrix \<Rightarrow> 'c \<Rightarrow> 'args \<Rightarrow> 'sm)
     \<Rightarrow> ('c Operator \<Rightarrow> 'a FieldMatrix BCRSMatrix \<Rightarrow> 'sm \<Rightarrow> ('a, 'crit, 'c) LevelTransferPolicy
          \<Rightarrow> CPRParameter \<times> 'args \<times> 'crit \<Rightarrow> nat \<Rightarrow> nat \<Rightarrow> 'tlm)
     \<Rightarrow> nat \<Rightarrow> nat \<Rightarrow> nat \<Rightarrow> 'a::plus matstore \<Rightarrow> CPRParameter \<Rightarrow> 'c Operator \<Rightarrow> 'crit
     \<Rightarrow> 'args \<Rightarrow> 'c
     \<Rightarrow> (('c, 'sm, 'args, 'crit, 'a, 'tlm) BlackoilAmg \<times> 'a matstore) option" where
  "new_BlackoilAmg constructFn newTwoLevelMethod rows cols ci h prm fineOperator crit smargs comm =
     do {
       (smo, h') \<leftarrow> scaleMatrixQuasiImpes rows cols h fineOperator comm ci;
       sm \<leftarrow> constructSmoother constructFn h' (snd smo) smargs comm;
       let ltp = new_LevelTransferPolicy crit comm (cpr_pressure_aggregation prm);
       let csp = (prm, smargs, crit);
       scaled \<leftarrow> getmat h' (snd smo);
       Some (\<lparr>param = prm, scaledMatrixOperator = smo, smoother = sm,
              levelTransferPolicy = ltp, coarseSolverPolicy = csp,
              twoLevelMethod = newTwoLevelMethod (snd smo) scaled sm ltp csp 0 1\<rparr>, h')
     }"

text \<open>
  \<^verbatim>\<open>apply(v, d)\<close>. Vectors live in a store of their own; \<open>v\<close> and \<open>d\<close> are addresses.
  \<^verbatim>\<open>auto scaledD = d\<close> allocates a copy, which is scaled in place, and the two-level
  method, a parameter, reads \<open>v\<close> and the copy and writes \<open>v\<close>. The copy is released on
  return.
\<close>

type_synonym 'a vecstore = "'a BlockVector list"

definition BlackoilAmg_apply ::
  "('tlm \<Rightarrow> 'a BlockVector \<Rightarrow> 'a BlockVector \<Rightarrow> 'tlm \<times> 'a BlockVector) \<Rightarrow> nat \<Rightarrow> nat
     \<Rightarrow> ('c, 'sm, 'args, 'crit, 'a::plus, 'tlm) BlackoilAmg \<Rightarrow> 'a vecstore \<Rightarrow> nat \<Rightarrow> nat
     \<Rightarrow> (('c, 'sm, 'args, 'crit, 'a, 'tlm) BlackoilAmg \<times> 'a vecstore) option" where
  "BlackoilAmg_apply twoLevelApply dimension ci amg s v d =
     (if v < length s \<and> d < length s then
        do {
          let scaledD = length s;
          let s1 = s @ [s ! d];
          scaled \<leftarrow> scaleVectorQuasiImpes dimension (s1 ! scaledD) ci;
          let s2 = s1[scaledD := scaled];
          let (tlm, v') = twoLevelApply (twoLevelMethod amg) (s2 ! v) (s2 ! scaledD);
          let s3 = s2[v := v'];
          Some (amg\<lparr>twoLevelMethod := tlm\<rparr>, take (length s) s3)
        }
      else None)"

section \<open>Auxiliary notions and concrete instances\<close>

text \<open>A parameter block, a preconditioner and a store of two vectors, for the concrete
  instances.\<close>

definition exampleParam :: CPRParameter where
  "exampleParam = \<lparr>cpr_use_amg = True, cpr_solver_tol = 1 / 100, cpr_max_ell_iter = 20,
     cpr_solver_verbose = False, cpr_use_bicgstab = True, cpr_pressure_aggregation = False\<rparr>"

definition exampleAmg :: "(unit, unit, unit, unit, int, int BlockVector) BlackoilAmg" where
  "exampleAmg = \<lparr>param = exampleParam, scaledMatrixOperator = (1, MatrixAdapter 1),
     smoother = (), levelTransferPolicy = new_LevelTransferPolicy () () False,
     coarseSolverPolicy = (exampleParam, (), ()), twoLevelMethod = []\<rparr>"

definition exampleStore :: "int vecstore" where
  "exampleStore = [[[0, 0], [0, 0]], [[1, 2], [3, 4]]]"

text \<open>The column indices of every row of a \<^verbatim>\<open>BCRSMatrix\<close> increase strictly.\<close>

definition rows_sorted :: "'b BCRSMatrix \<Rightarrow> bool" where
  "rows_sorted A \<longleftrightarrow> list_all (\<lambda>row. sorted_wrt (<) (map fst row)) (rowdata A)"

text \<open>A policy in direct-extraction mode, as its constructor leaves it, and an
  aggregation of no vertex.\<close>

definition examplePolicy :: "(int, unit, unit) LevelTransferPolicy" where
  "examplePolicy = new_LevelTransferPolicy () () False"

definition noAggregation ::
  "unit \<Rightarrow> unit \<Rightarrow> int FieldMatrix BCRSMatrix \<Rightarrow> unit Aggregation" where
  "noAggregation crit comm A =
     \<lparr>agg_map = [], agg_count = 0, agg_pattern = (\<lambda>I. []), agg_comm = ()\<rparr>"

text \<open>
  The stored entries of rows numbered from \<open>r\<close>, and of a matrix, as a list of row
  index, column index and block, in the order in which the two loops of
  \<open>calculateCoarseEntries\<close> visit them; the entries that contribute to the coarse position
  \<open>(I, J)\<close>, those whose row and column have the aggregates \<open>I\<close> and \<open>J\<close>, neither
  isolated; and what the statement \<^verbatim>\<open>+=\<close> accumulates at \<open>(I, J)\<close> from \<open>0\<close> over a list
  of entries: the components \<open>[ci][ci]\<close> of the contributing ones are added one after
  the other, in the order of the list.
\<close>

definition rowEntries :: "nat \<Rightarrow> (nat \<times> 'b) list list \<Rightarrow> (nat \<times> nat \<times> 'b) list" where
  "rowEntries r rows =
     concat (map (\<lambda>x. map (\<lambda>e. (fst x, fst e, snd e)) (snd x)) (enumerate r rows))"

definition fineEntries :: "'b BCRSMatrix \<Rightarrow> (nat \<times> nat \<times> 'b) list" where
  "fineEntries A = rowEntries 0 (rowdata A)"

definition contributes :: "nat list \<Rightarrow> nat \<Rightarrow> nat \<Rightarrow> nat \<times> nat \<times> 'b \<Rightarrow> bool" where
  "contributes am I J e \<longleftrightarrow>
     am ! fst e = I \<and> am ! fst (snd e) = J \<and>
     am ! fst e \<noteq> ISOLATED \<and> am ! fst (snd e) \<noteq> ISOLATED"

definition accumulated ::
  "nat list \<Rightarrow> nat \<Rightarrow> (nat \<times> nat \<times> 'a::{plus,zero} FieldMatrix) list \<Rightarrow> nat \<Rightarrow> nat \<Rightarrow> 'a" where
  "accumulated am ci es I J =
     foldl (+) 0 (map (\<lambda>e. snd (snd e) ! ci ! ci) (filter (contributes am I J) es))"

definition aggregatedSum ::
  "nat list \<Rightarrow> nat \<Rightarrow> 'a::{plus,zero} FieldMatrix BCRSMatrix \<Rightarrow> nat \<Rightarrow> nat \<Rightarrow> 'a" where
  "aggregatedSum am ci A I J = accumulated am ci (fineEntries A) I J"

text \<open>
  For the proofs about \<open>calculateCoarseEntries\<close>: the coarse rows with a given pattern
  and given values, and the condition under which the loop over a row meets no fault.
\<close>

definition valued :: "nat list list \<Rightarrow> (nat \<Rightarrow> nat \<Rightarrow> 'a) \<Rightarrow> (nat \<times> 'a) list list" where
  "valued pat f = map (\<lambda>I. map (\<lambda>J. (J, f I J)) (pat ! I)) [0..<length pat]"

definition entry_ok ::
  "nat list \<Rightarrow> nat \<Rightarrow> nat list list \<Rightarrow> nat \<Rightarrow> nat \<times> 'a FieldMatrix \<Rightarrow> bool" where
  "entry_ok a ci pat i e \<longleftrightarrow>
     fst e < length a \<and>
     (a ! fst e \<noteq> ISOLATED \<longrightarrow>
        ci < length (snd e) \<and> ci < length (snd e ! ci) \<and> i < length pat \<and>
        a ! fst e \<in> set (pat ! i))"

text \<open>
  A fine matrix of three cells with \<open>1\<times>1\<close> blocks, and a policy in aggregation mode
  in which the first two cells form aggregate \<open>0\<close> and the third is isolated.
\<close>

definition exampleFine :: "int FieldMatrix BCRSMatrix" where
  "exampleFine = \<lparr>ncols = 3, rowdata =
     [[(0, [[1]]), (1, [[2]])],
      [(0, [[3]]), (1, [[4]]), (2, [[5]])],
      [(1, [[6]]), (2, [[7]])]]\<rparr>"

definition exampleAggregating :: "(int, unit, unit) LevelTransferPolicy" where
  "exampleAggregating =
     \<lparr>prolongDamp = Some 1, aggregatesMap = Some [0, 0, ISOLATED], criterion = (),
      communication = (), coarseLevelCommunication = Some (),
      coarseLevelMatrix = Some \<lparr>ncols = 1, rowdata = [[(0, 99)]]\<rparr>,
      pressure_aggregation = True, lhs = [0], rhs = [0]\<rparr>"

text \<open>
  What the loop of \<open>moveToCoarseLevel\<close> over the blocks \<open>bs\<close>, numbered from \<open>k\<close>, leaves
  at the coarse index \<open>A\<close> when that entry starts at \<open>x\<close>: the components \<open>ci\<close> of the
  blocks whose aggregate is \<open>A\<close> and not isolated are added to \<open>x\<close> one after the other,
  in the order of the blocks. Then the condition under which the loops over the fine
  vector meet no fault at a block.
\<close>

definition restricted ::
  "nat list \<Rightarrow> nat \<Rightarrow> nat \<Rightarrow> 'a::plus BlockVector \<Rightarrow> nat \<Rightarrow> 'a \<Rightarrow> 'a" where
  "restricted a ci k bs A x =
     foldl (+) x (map (\<lambda>y. snd y ! ci)
                    (filter (\<lambda>y. a ! fst y = A \<and> a ! fst y \<noteq> ISOLATED) (enumerate k bs)))"

definition vertex_ok :: "nat list \<Rightarrow> nat \<Rightarrow> nat \<Rightarrow> nat \<times> 'a FieldVector \<Rightarrow> bool" where
  "vertex_ok a ci len x \<longleftrightarrow> (a ! fst x \<noteq> ISOLATED \<longrightarrow> a ! fst x < len \<and> ci < length (snd x))"

text \<open>The number of the first \<open>n\<close> fine vertices whose aggregate is \<open>A\<close>.\<close>

definition aggregateSize :: "nat list \<Rightarrow> nat \<Rightarrow> nat \<Rightarrow> nat" where
  "aggregateSize a n A = length (filter (\<lambda>k. a ! k = A) [0..<n])"

section \<open>Properties of the scaling\<close>

lemma scaleBlock_j_append:
  "scaleBlock_j p i (xs @ ys) B = scaleBlock_j p i xs B \<bind> scaleBlock_j p i ys"
  by (induction xs arbitrary: B) (auto simp: bind_assoc split: bind_splits)

lemma scaleBlock_i_append:
  "scaleBlock_i m p (xs @ ys) B = scaleBlock_i m p xs B \<bind> scaleBlock_i m p ys"
  by (induction xs arbitrary: B) (auto split: bind_splits)

lemma map_nth_len: "length xs = m \<Longrightarrow> map (\<lambda>j. xs ! j) [0..<m] = xs"
  using map_nth[of xs] by auto

lemma map_upt_update:
  "k < m \<Longrightarrow> (map f [0..<m])[k := v] = map (\<lambda>j. if j = k then v else f j) [0..<m]"
  by (rule nth_equalityI) (auto simp: nth_list_update)

lemma scaleBlock_j_upt:
  assumes "p < length B" "i < length B" "i \<noteq> p" "length (B ! p) = m" "length (B ! i) = m"
    and "k \<le> m"
  shows "scaleBlock_j p i [0..<k] B =
           Some (B[p := map (\<lambda>j. if j < k then B ! p ! j + B ! i ! j else B ! p ! j) [0..<m]])"
  using \<open>k \<le> m\<close>
proof (induction k)
  case 0
  have "map (\<lambda>j. B ! p ! j) [0..<m] = B ! p"
    using assms(4) by (rule map_nth_len)
  then show ?case using assms(1) by simp
next
  case (Suc k)
  let ?f = "\<lambda>j. if j < k then B ! p ! j + B ! i ! j else B ! p ! j"
  let ?B1 = "B[p := map ?f [0..<m]]"
  from Suc have IH: "scaleBlock_j p i [0..<k] B = Some ?B1" and km: "k < m" by simp_all
  have step: "addRowEntry p i k ?B1 =
      Some (B[p := map (\<lambda>j. if j < Suc k then B ! p ! j + B ! i ! j else B ! p ! j) [0..<m]])"
    using assms(1-5) km
    by (auto simp: addRowEntry_def map_upt_update less_Suc_eq intro!: arg_cong[where f="list_update B p"])
  show ?case by (simp add: scaleBlock_j_append IH step)
qed

lemma scaleBlock_j_full:
  assumes "p < length B" "i < length B" "i \<noteq> p" "length (B ! p) = m" "length (B ! i) = m"
  shows "scaleBlock_j p i [0..<m] B = Some (B[p := map (\<lambda>j. B ! p ! j + B ! i ! j) [0..<m]])"
proof -
  have "map (\<lambda>j. if j < m then B ! p ! j + B ! i ! j else B ! p ! j) [0..<m]
        = map (\<lambda>j. B ! p ! j + B ! i ! j) [0..<m]"
    by (rule map_cong) auto
  with scaleBlock_j_upt[OF assms order_refl] show ?thesis by simp
qed

lemma otherRows_Suc:
  "otherRows (Suc k) p = (if k = p then otherRows k p else otherRows k p @ [k])"
  by (simp add: otherRows_def)

lemma scaleBlock_i_upt:
  assumes "block_ok n m B" "p < n" "k \<le> n"
  shows "scaleBlock_i m p [0..<k] B = Some (scaledBlock k m p B)"
  using \<open>k \<le> n\<close>
proof (induction k)
  case 0
  have "map (\<lambda>j. B ! p ! j) [0..<m] = B ! p"
    using assms(1,2) by (intro map_nth_len) (simp add: block_ok_def list_all_length)
  then show ?case by (simp add: scaledBlock_def otherRows_def)
next
  case (Suc k)
  from Suc have IH: "scaleBlock_i m p [0..<k] B = Some (scaledBlock k m p B)" and kn: "k < n"
    by simp_all
  have len: "length B = n" and rows: "\<And>r. r < n \<Longrightarrow> length (B ! r) = m"
    using assms(1) by (simp_all add: block_ok_def list_all_length)
  show ?case
  proof (cases "k = p")
    case True
    have "scaledBlock (Suc k) m p B = scaledBlock k m p B"
      using True by (simp add: scaledBlock_def otherRows_Suc)
    then show ?thesis using True IH by (simp add: scaleBlock_i_append)
  next
    case False
    let ?B1 = "scaledBlock k m p B"
    have 1: "p < length ?B1" "k < length ?B1" "length (?B1 ! p) = m" "length (?B1 ! k) = m"
      using len rows kn assms(2) False by (simp_all add: scaledBlock_def)
    have "scaleBlock_j p k [0..<m] ?B1 = Some (?B1[p := map (\<lambda>j. ?B1 ! p ! j + ?B1 ! k ! j) [0..<m]])"
      by (rule scaleBlock_j_full[OF 1(1,2) False 1(3,4)])
    also have "?B1[p := map (\<lambda>j. ?B1 ! p ! j + ?B1 ! k ! j) [0..<m]] = scaledBlock (Suc k) m p B"
      using len assms(2) False
      by (auto simp: scaledBlock_def otherRows_Suc intro!: arg_cong[where f="list_update B p"])
    finally show ?thesis using False by (simp add: scaleBlock_i_append IH)
  qed
qed

lemma scaleBlock_closed:
  "block_ok n m B \<Longrightarrow> p < n \<Longrightarrow> scaleBlock n m p B = Some (scaledBlock n m p B)"
  unfolding scaleBlock_def by (rule scaleBlock_i_upt) auto

lemma scaleRow_closed:
  "list_all (\<lambda>e. block_ok n m (snd e)) row \<Longrightarrow> p < n \<Longrightarrow>
   scaleRow n m p row = Some (map (\<lambda>e. (fst e, scaledBlock n m p (snd e))) row)"
  by (induction row) (simp_all add: scaleBlock_closed)

lemma scaleRows_closed:
  "list_all (list_all (\<lambda>e. block_ok n m (snd e))) rs \<Longrightarrow> p < n \<Longrightarrow>
   scaleRows n m p rs = Some (map (map (\<lambda>e. (fst e, scaledBlock n m p (snd e)))) rs)"
  by (induction rs) (simp_all add: scaleRow_closed)

lemma scaleMatrixInPlace_closed:
  "blocks_ok n m A \<Longrightarrow> p < n \<Longrightarrow> scaleMatrixInPlace n m p A = Some (scaledMatrix n m p A)"
  by (simp add: scaleMatrixInPlace_def scaledMatrix_def blocks_ok_def scaleRows_closed)

lemma scaleMatrixQuasiImpes_closed:
  assumes "getmat h op = Some A" "blocks_ok n m A" "p < n"
  shows "scaleMatrixQuasiImpes n m h op comm p =
           Some ((length h, createOperator op (length h) comm), h @ [scaledMatrix n m p A])"
  using assms by (simp add: scaleMatrixQuasiImpes_def scaleMatrixInPlace_closed Let_def)

lemma mat_ref_createOperator: "mat_ref (createOperator op a comm) = a"
  by (cases op) simp_all

lemma getmat_fresh: "getmat (h @ [A]) (createOperator op (length h) comm) = Some A"
  by (simp add: getmat_def mat_ref_createOperator)

lemma getmat_old: "getmat h op = Some A \<Longrightarrow> getmat (h @ [A']) op = Some A"
  by (auto simp: getmat_def nth_append split: if_splits)

lemma otherRows_mem: "i \<in> set (otherRows n p) \<longleftrightarrow> i < n \<and> i \<noteq> p"
  by (auto simp: otherRows_def)

lemma scaledBlock_length: "length (scaledBlock n m p B) = length B"
  by (simp add: scaledBlock_def)

lemma scaledBlock_other: "i \<noteq> p \<Longrightarrow> scaledBlock n m p B ! i = B ! i"
  by (simp add: scaledBlock_def)

lemma scaledBlock_pressure:
  "p < length B \<Longrightarrow>
   scaledBlock n m p B ! p = map (\<lambda>j. addOthers n p B j (B ! p ! j)) [0..<m]"
  by (simp add: scaledBlock_def addOthers_def)

lemma addOthers_scaledBlock:
  "addOthers n p (scaledBlock n m p B) j x = addOthers n p B j x"
proof -
  have "map (\<lambda>i. scaledBlock n m p B ! i ! j) (otherRows n p)
        = map (\<lambda>i. B ! i ! j) (otherRows n p)"
    by (rule map_cong) (simp_all add: otherRows_mem scaledBlock_other)
  then show ?thesis unfolding addOthers_def by (rule arg_cong)
qed

lemma block_ok_scaledBlock:
  "block_ok n m B \<Longrightarrow> p < n \<Longrightarrow> block_ok n m (scaledBlock n m p B)"
  by (auto simp: block_ok_def scaledBlock_def list_all_length nth_list_update)

lemma blocks_ok_scaledMatrix:
  "blocks_ok n m A \<Longrightarrow> p < n \<Longrightarrow> blocks_ok n m (scaledMatrix n m p A)"
  by (auto simp: blocks_ok_def scaledMatrix_def list_all_iff block_ok_scaledBlock)

lemma pattern_scaledMatrix: "pattern (scaledMatrix n m p A) = pattern A"
  by (simp add: pattern_def scaledMatrix_def comp_def)

lemma blocks_ok_nth:
  "blocks_ok n m A \<Longrightarrow> r < length (rowdata A) \<Longrightarrow> k < length (rowdata A ! r) \<Longrightarrow>
   block_ok n m (snd (rowdata A ! r ! k))"
  by (simp add: blocks_ok_def list_all_length)

text \<open>
  Claim C1. For a store holding the operator's matrix, whose blocks all have \<open>n\<close> rows
  and \<open>m\<close> columns, and a pressure index \<open>p < n\<close>, \<open>scaleMatrixQuasiImpes\<close> returns
  a matrix with the same rows and the same column indices, in which the pressure row of
  every block is the sum of all \<open>n\<close> rows of the original block, formed entry by entry
  as the loop forms it (the original pressure row, to which the other rows are added
  in increasing order of their index, with the addition of the field type and no law
  assumed of it), and every other row is the original row.
\<close>

theorem scaleMatrixQuasiImpes_rows:
  fixes h :: "'a::plus matstore"
  assumes "getmat h op = Some A" and "blocks_ok n m A" and "p < n"
  shows "\<exists>a op' h' A'.
           scaleMatrixQuasiImpes n m h op comm p = Some ((a, op'), h') \<and>
           getmat h' op' = Some A' \<and>
           length (rowdata A') = length (rowdata A) \<and>
           (\<forall>r < length (rowdata A).
              length (rowdata A' ! r) = length (rowdata A ! r) \<and>
              (\<forall>k < length (rowdata A ! r).
                 fst (rowdata A' ! r ! k) = fst (rowdata A ! r ! k) \<and>
                 length (snd (rowdata A' ! r ! k)) = n \<and>
                 snd (rowdata A' ! r ! k) ! p
                   = map (\<lambda>j. foldl (+) (snd (rowdata A ! r ! k) ! p ! j)
                                (map (\<lambda>i. snd (rowdata A ! r ! k) ! i ! j)
                                   (filter (\<lambda>i. i \<noteq> p) [0..<n])))
                       [0..<m] \<and>
                 (\<forall>i < n. i \<noteq> p \<longrightarrow>
                    snd (rowdata A' ! r ! k) ! i = snd (rowdata A ! r ! k) ! i)))"
proof -
  let ?A' = "scaledMatrix n m p A"
  have run: "scaleMatrixQuasiImpes n m h op comm p =
      Some ((length h, createOperator op (length h) comm), h @ [?A'])"
    by (rule scaleMatrixQuasiImpes_closed[OF assms])
  have blk: "length (snd (rowdata ?A' ! r ! k)) = n \<and>
        snd (rowdata ?A' ! r ! k) ! p
          = map (\<lambda>j. foldl (+) (snd (rowdata A ! r ! k) ! p ! j)
                       (map (\<lambda>i. snd (rowdata A ! r ! k) ! i ! j)
                          (filter (\<lambda>i. i \<noteq> p) [0..<n])))
              [0..<m] \<and>
        (\<forall>i < n. i \<noteq> p \<longrightarrow> snd (rowdata ?A' ! r ! k) ! i = snd (rowdata A ! r ! k) ! i)"
    if "r < length (rowdata A)" "k < length (rowdata A ! r)" for r k
  proof -
    let ?B = "snd (rowdata A ! r ! k)"
    have ok: "block_ok n m ?B" using assms(2) that by (rule blocks_ok_nth)
    then have len: "length ?B = n" by (simp add: block_ok_def)
    have eq: "snd (rowdata ?A' ! r ! k) = scaledBlock n m p ?B"
      using that by (simp add: scaledMatrix_def)
    show ?thesis
      using len assms(3)
      by (simp add: eq scaledBlock_length scaledBlock_other scaledBlock_pressure
          addOthers_def otherRows_def)
  qed
  have "length (rowdata ?A') = length (rowdata A)" by (simp add: scaledMatrix_def)
  moreover have "length (rowdata ?A' ! r) = length (rowdata A ! r)"
    if "r < length (rowdata A)" for r using that by (simp add: scaledMatrix_def)
  moreover have "fst (rowdata ?A' ! r ! k) = fst (rowdata A ! r ! k)"
    if "r < length (rowdata A)" "k < length (rowdata A ! r)" for r k
    using that by (simp add: scaledMatrix_def)
  ultimately show ?thesis using run getmat_fresh[of h ?A' op comm] blk by blast
qed

lemma exampleMatrix_ok:
  "getmat [exampleMatrix] (MatrixAdapter 0 :: unit Operator) = Some exampleMatrix"
  "blocks_ok 2 2 exampleMatrix"
  by (simp_all add: getmat_def exampleMatrix_def exampleBlock_def blocks_ok_def block_ok_def)

theorem scaleMatrixQuasiImpes_rows_witness:
  "getmat [exampleMatrix] (MatrixAdapter 0 :: unit Operator) = Some exampleMatrix \<and>
   blocks_ok 2 2 exampleMatrix \<and> (0::nat) < 2 \<and>
   (\<exists>a op' h' A'.
      scaleMatrixQuasiImpes 2 2 [exampleMatrix] (MatrixAdapter 0) () 0 = Some ((a, op'), h') \<and>
      getmat h' op' = Some A' \<and>
      snd (rowdata A' ! 1 ! 1) ! 0 = [4, 6] \<and> snd (rowdata A' ! 1 ! 1) ! 1 = [3, 4])"
proof -
  note ok = exampleMatrix_ok
  have p: "(0::nat) < 2" by simp
  obtain a op' h' A' where
    run: "scaleMatrixQuasiImpes 2 2 [exampleMatrix] (MatrixAdapter 0) () 0 = Some ((a, op'), h')"
    and g: "getmat h' op' = Some A'"
    and props: "\<forall>r < length (rowdata exampleMatrix).
              length (rowdata A' ! r) = length (rowdata exampleMatrix ! r) \<and>
              (\<forall>k < length (rowdata exampleMatrix ! r).
                 fst (rowdata A' ! r ! k) = fst (rowdata exampleMatrix ! r ! k) \<and>
                 length (snd (rowdata A' ! r ! k)) = 2 \<and>
                 snd (rowdata A' ! r ! k) ! 0
                   = map (\<lambda>j. foldl (+) (snd (rowdata exampleMatrix ! r ! k) ! 0 ! j)
                                (map (\<lambda>i. snd (rowdata exampleMatrix ! r ! k) ! i ! j)
                                   (filter (\<lambda>i. i \<noteq> 0) [0..<2])))
                       [0..<2] \<and>
                 (\<forall>i < 2. i \<noteq> 0 \<longrightarrow>
                    snd (rowdata A' ! r ! k) ! i = snd (rowdata exampleMatrix ! r ! k) ! i))"
    using scaleMatrixQuasiImpes_rows[OF ok p, of "()"] by blast
  have r: "1 < length (rowdata exampleMatrix)" and k: "1 < length (rowdata exampleMatrix ! 1)"
    by (simp_all add: exampleMatrix_def)
  from props r k have
    "snd (rowdata A' ! 1 ! 1) ! 0
       = map (\<lambda>j. foldl (+) (snd (rowdata exampleMatrix ! 1 ! 1) ! 0 ! j)
                    (map (\<lambda>i. snd (rowdata exampleMatrix ! 1 ! 1) ! i ! j)
                       (filter (\<lambda>i. i \<noteq> 0) [0..<2])))
           [0..<2]"
    and "snd (rowdata A' ! 1 ! 1) ! 1 = snd (rowdata exampleMatrix ! 1 ! 1) ! 1"
    by auto
  then have "snd (rowdata A' ! 1 ! 1) ! 0 = [4, 6]" "snd (rowdata A' ! 1 ! 1) ! 1 = [3, 4]"
    by (simp_all add: exampleMatrix_def exampleBlock_def upt_conv_Cons)
  with ok run g show ?thesis by auto
qed

lemma nonzeros_cong: "pattern A' = pattern A \<Longrightarrow> nonzeros A' = nonzeros A"
  by (simp add: nonzeros_def)

text \<open>
  Claim C8. The scaling neither introduces nor removes a block: the matrix that
  \<open>scaleMatrixQuasiImpes\<close> returns has the same stored positions, row by row and as a
  set, and the same numbers of rows and columns as the matrix of the operator.
\<close>
theorem scaleMatrixQuasiImpes_sparsity:
  fixes h :: "'a::plus matstore"
  assumes "getmat h op = Some A" and "blocks_ok n m A" and "p < n"
  shows "\<exists>a op' h' A'.
           scaleMatrixQuasiImpes n m h op comm p = Some ((a, op'), h') \<and>
           getmat h' op' = Some A' \<and>
           nonzeros A' = nonzeros A \<and> pattern A' = pattern A \<and>
           mat_N A' = mat_N A \<and> mat_M A' = mat_M A"
proof -
  let ?A' = "scaledMatrix n m p A"
  have "scaleMatrixQuasiImpes n m h op comm p =
      Some ((length h, createOperator op (length h) comm), h @ [?A'])"
    by (rule scaleMatrixQuasiImpes_closed[OF assms])
  moreover have "getmat (h @ [?A']) (createOperator op (length h) comm) = Some ?A'"
    by (rule getmat_fresh)
  moreover have "pattern ?A' = pattern A" by (rule pattern_scaledMatrix)
  moreover from this have "nonzeros ?A' = nonzeros A" by (rule nonzeros_cong)
  moreover have "mat_N ?A' = mat_N A" "mat_M ?A' = mat_M A"
    by (simp_all add: mat_N_def mat_M_def scaledMatrix_def)
  ultimately show ?thesis by blast
qed

theorem scaleMatrixQuasiImpes_sparsity_witness:
  "getmat [exampleMatrix] (MatrixAdapter 0 :: unit Operator) = Some exampleMatrix \<and>
   blocks_ok 2 2 exampleMatrix \<and> (1::nat) < 2 \<and>
   (\<exists>a op' h' A'.
      scaleMatrixQuasiImpes 2 2 [exampleMatrix] (MatrixAdapter 0) () 1 = Some ((a, op'), h') \<and>
      getmat h' op' = Some A' \<and>
      nonzeros A' = {(0, 0), (1, 0), (1, 1)} \<and> pattern A' = [[0], [0, 1]] \<and>
      mat_N A' = 2 \<and> mat_M A' = 2)"
proof -
  note ok = exampleMatrix_ok
  have p: "pattern exampleMatrix = [[0], [0, 1]]"
    by (simp add: pattern_def exampleMatrix_def)
  have nz: "nonzeros exampleMatrix = {(0, 0), (1, 0), (1, 1)}"
    by (auto simp: nonzeros_def p less_Suc_eq numeral_2_eq_2)
  have d: "mat_N exampleMatrix = 2" "mat_M exampleMatrix = 2"
    by (simp_all add: mat_N_def mat_M_def exampleMatrix_def)
  show ?thesis
    using scaleMatrixQuasiImpes_sparsity[OF ok, of 1 "()"] ok p nz d by auto
qed

text \<open>
  Scaling is not idempotent: on one \<open>2\<times>2\<close> block with rows \<open>(1,2)\<close> and \<open>(3,4)\<close> the
  first application gives the pressure row \<open>(4,6)\<close>, the second \<open>(7,10)\<close>.
\<close>
theorem scaleMatrixQuasiImpes_twice_counterexample:
  "scaleMatrixQuasiImpes 2 2 [\<lparr>ncols = 1, rowdata = [[(0, [[1, 2], [3, 4::int]])]]\<rparr>]
       (MatrixAdapter 0 :: unit Operator) () 0
     = Some ((1, MatrixAdapter 1),
             [\<lparr>ncols = 1, rowdata = [[(0, [[1, 2], [3, 4]])]]\<rparr>,
              \<lparr>ncols = 1, rowdata = [[(0, [[4, 6], [3, 4]])]]\<rparr>]) \<and>
   scaleMatrixQuasiImpes 2 2 [\<lparr>ncols = 1, rowdata = [[(0, [[1, 2], [3, 4::int]])]]\<rparr>,
                              \<lparr>ncols = 1, rowdata = [[(0, [[4, 6], [3, 4]])]]\<rparr>]
       (MatrixAdapter 1 :: unit Operator) () 0
     = Some ((2, MatrixAdapter 2),
             [\<lparr>ncols = 1, rowdata = [[(0, [[1, 2], [3, 4]])]]\<rparr>,
              \<lparr>ncols = 1, rowdata = [[(0, [[4, 6], [3, 4]])]]\<rparr>,
              \<lparr>ncols = 1, rowdata = [[(0, [[7, 10], [3, 4]])]]\<rparr>]) \<and>
   \<lparr>ncols = 1, rowdata = [[(0, [[7, 10], [3, 4::int]])]]\<rparr>
     \<noteq> \<lparr>ncols = 1, rowdata = [[(0, [[4, 6], [3, 4]])]]\<rparr>"
  by (simp add: scaleMatrixQuasiImpes_def getmat_def scaleMatrixInPlace_def scaleBlock_def
      addRowEntry_def upt_conv_Cons)

lemma scaledBlock_twice_pressure:
  assumes "block_ok n m B" "p < n"
  shows "scaledBlock n m p (scaledBlock n m p B) ! p
           = map (\<lambda>j. addOthers n p B j (addOthers n p B j (B ! p ! j))) [0..<m]"
proof -
  let ?B1 = "scaledBlock n m p B"
  have len: "length B = n" using assms(1) by (simp add: block_ok_def)
  have "scaledBlock n m p ?B1 ! p = map (\<lambda>j. addOthers n p ?B1 j (?B1 ! p ! j)) [0..<m]"
    using len assms(2) by (simp add: scaledBlock_pressure scaledBlock_length)
  also have "\<dots> = map (\<lambda>j. addOthers n p B j (addOthers n p B j (B ! p ! j))) [0..<m]"
    using len assms(2)
    by (intro map_cong refl) (simp add: addOthers_scaledBlock scaledBlock_pressure)
  finally show ?thesis .
qed

lemma scaledBlock_twice_same:
  assumes "block_ok n m B" "p < n"
  shows "scaledBlock n m p (scaledBlock n m p B) = scaledBlock n m p B \<longleftrightarrow>
         (\<forall>j < m. addOthers n p B j (addOthers n p B j (B ! p ! j))
                    = addOthers n p B j (B ! p ! j))"
    (is "?L \<longleftrightarrow> ?R")
proof
  have len: "length B = n" using assms(1) by (simp add: block_ok_def)
  {
    assume ?L
    then have "scaledBlock n m p (scaledBlock n m p B) ! p = scaledBlock n m p B ! p" by simp
    then have eq: "map (\<lambda>j. addOthers n p B j (addOthers n p B j (B ! p ! j))) [0..<m]
                   = map (\<lambda>j. addOthers n p B j (B ! p ! j)) [0..<m]"
      using len assms(2) by (simp add: scaledBlock_twice_pressure[OF assms] scaledBlock_pressure)
    show ?R
    proof (intro allI impI)
      fix j assume "j < m"
      with eq show "addOthers n p B j (addOthers n p B j (B ! p ! j))
                    = addOthers n p B j (B ! p ! j)"
        by (auto simp: list_eq_iff_nth_eq)
    qed
  }
  {
    assume R: ?R
    have "map (\<lambda>j. addOthers n p B j (addOthers n p B j (B ! p ! j))) [0..<m]
          = map (\<lambda>j. addOthers n p B j (B ! p ! j)) [0..<m]"
      using R by (intro map_cong refl) simp
    then have "scaledBlock n m p (scaledBlock n m p B) ! p = scaledBlock n m p B ! p"
      using len assms(2) by (simp add: scaledBlock_twice_pressure[OF assms] scaledBlock_pressure)
    then have "scaledBlock n m p (scaledBlock n m p B) ! i = scaledBlock n m p B ! i" for i
      by (cases "i = p") (simp_all add: scaledBlock_other)
    then show ?L
      by (intro list_eq_iff_nth_eq[THEN iffD2]) (simp add: scaledBlock_length)
  }
qed

text \<open>
  Claim C6, amended. A second application of \<open>scaleMatrixQuasiImpes\<close>, to the operator
  that the first returned, adds the other rows of every block to its pressure row once
  more: every entry of the pressure row is the entry that the first application left,
  to which the entries of the other rows are added again in the order of the loop. The
  other rows and the stored positions are those of the original, and the matrix of the
  first application is left as it was. The two results are equal exactly when these
  second additions change no entry of any pressure row.
\<close>

theorem scaleMatrixQuasiImpes_twice:
  fixes h :: "'a::plus matstore"
  assumes "getmat h op = Some A" and "blocks_ok n m A" and "p < n"
  shows "\<exists>a1 op1 h1 A1 a2 op2 h2 A2.
           scaleMatrixQuasiImpes n m h op comm p = Some ((a1, op1), h1) \<and>
           getmat h1 op1 = Some A1 \<and>
           scaleMatrixQuasiImpes n m h1 op1 comm p = Some ((a2, op2), h2) \<and>
           getmat h2 op2 = Some A2 \<and> getmat h2 op1 = Some A1 \<and>
           pattern A2 = pattern A \<and>
           (\<forall>r < length (rowdata A). \<forall>k < length (rowdata A ! r).
              snd (rowdata A1 ! r ! k) ! p
                = map (\<lambda>j. addOthers n p (snd (rowdata A ! r ! k)) j
                             (snd (rowdata A ! r ! k) ! p ! j)) [0..<m] \<and>
              snd (rowdata A2 ! r ! k) ! p
                = map (\<lambda>j. addOthers n p (snd (rowdata A ! r ! k)) j
                             (snd (rowdata A1 ! r ! k) ! p ! j)) [0..<m] \<and>
              (\<forall>i < n. i \<noteq> p \<longrightarrow>
                 snd (rowdata A2 ! r ! k) ! i = snd (rowdata A ! r ! k) ! i)) \<and>
           (A2 = A1 \<longleftrightarrow>
              (\<forall>r < length (rowdata A). \<forall>k < length (rowdata A ! r). \<forall>j < m.
                 addOthers n p (snd (rowdata A ! r ! k)) j (snd (rowdata A1 ! r ! k) ! p ! j)
                   = snd (rowdata A1 ! r ! k) ! p ! j))"
proof -
  let ?A1 = "scaledMatrix n m p A"
  let ?A2 = "scaledMatrix n m p ?A1"
  let ?h1 = "h @ [?A1]"
  let ?op1 = "createOperator op (length h) comm"
  let ?op2 = "createOperator ?op1 (length ?h1) comm"
  have run1: "scaleMatrixQuasiImpes n m h op comm p = Some ((length h, ?op1), ?h1)"
    by (rule scaleMatrixQuasiImpes_closed[OF assms])
  have g1: "getmat ?h1 ?op1 = Some ?A1" by (rule getmat_fresh)
  have ok1: "blocks_ok n m ?A1" using assms(2,3) by (rule blocks_ok_scaledMatrix)
  have run2: "scaleMatrixQuasiImpes n m ?h1 ?op1 comm p = Some ((length ?h1, ?op2), ?h1 @ [?A2])"
    by (rule scaleMatrixQuasiImpes_closed[OF g1 ok1 assms(3)])
  have g2: "getmat (?h1 @ [?A2]) ?op2 = Some ?A2" by (rule getmat_fresh)
  have g21: "getmat (?h1 @ [?A2]) ?op1 = Some ?A1" using g1 by (rule getmat_old)
  have pat: "pattern ?A2 = pattern A" by (simp add: pattern_scaledMatrix)
  have blk2: "snd (rowdata ?A2 ! r ! k)
                = scaledBlock n m p (scaledBlock n m p (snd (rowdata A ! r ! k)))"
    and blk1: "snd (rowdata ?A1 ! r ! k) = scaledBlock n m p (snd (rowdata A ! r ! k))"
    if "r < length (rowdata A)" "k < length (rowdata A ! r)" for r k
    using that by (simp_all add: scaledMatrix_def)
  have p1: "snd (rowdata ?A1 ! r ! k) ! p
              = map (\<lambda>j. addOthers n p (snd (rowdata A ! r ! k)) j
                           (snd (rowdata A ! r ! k) ! p ! j)) [0..<m]"
    if "r < length (rowdata A)" "k < length (rowdata A ! r)" for r k
    using that blocks_ok_nth[OF assms(2) that] assms(3)
    by (simp add: blk1 scaledBlock_pressure block_ok_def)
  have p1j: "snd (rowdata ?A1 ! r ! k) ! p ! j
              = addOthers n p (snd (rowdata A ! r ! k)) j (snd (rowdata A ! r ! k) ! p ! j)"
    if "r < length (rowdata A)" "k < length (rowdata A ! r)" "j < m" for r k j
    using that by (simp add: p1)
  have rows: "snd (rowdata ?A1 ! r ! k) ! p
                = map (\<lambda>j. addOthers n p (snd (rowdata A ! r ! k)) j
                             (snd (rowdata A ! r ! k) ! p ! j)) [0..<m] \<and>
              snd (rowdata ?A2 ! r ! k) ! p
                = map (\<lambda>j. addOthers n p (snd (rowdata A ! r ! k)) j
                             (snd (rowdata ?A1 ! r ! k) ! p ! j)) [0..<m] \<and>
              (\<forall>i < n. i \<noteq> p \<longrightarrow>
                 snd (rowdata ?A2 ! r ! k) ! i = snd (rowdata A ! r ! k) ! i)"
    if rk: "r < length (rowdata A)" "k < length (rowdata A ! r)" for r k
  proof -
    have "map (\<lambda>j. addOthers n p (snd (rowdata A ! r ! k)) j
                     (addOthers n p (snd (rowdata A ! r ! k)) j (snd (rowdata A ! r ! k) ! p ! j)))
            [0..<m]
          = map (\<lambda>j. addOthers n p (snd (rowdata A ! r ! k)) j
                       (snd (rowdata ?A1 ! r ! k) ! p ! j)) [0..<m]"
      using rk by (intro map_cong refl) (simp add: p1j)
    then show ?thesis
      using rk blocks_ok_nth[OF assms(2) rk] assms(3)
      by (simp add: p1 blk2 scaledBlock_twice_pressure scaledBlock_other)
  qed
  have same: "?A2 = ?A1 \<longleftrightarrow>
      (\<forall>r < length (rowdata A). \<forall>k < length (rowdata A ! r). \<forall>j < m.
         addOthers n p (snd (rowdata A ! r ! k)) j (snd (rowdata ?A1 ! r ! k) ! p ! j)
           = snd (rowdata ?A1 ! r ! k) ! p ! j)" (is "?L \<longleftrightarrow> ?R")
  proof
    assume L: ?L
    show ?R
    proof (intro allI impI)
      fix r k j assume rk: "r < length (rowdata A)" "k < length (rowdata A ! r)" and j: "j < m"
      let ?B = "snd (rowdata A ! r ! k)"
      have ok: "block_ok n m ?B" using assms(2) rk by (rule blocks_ok_nth)
      from L have "snd (rowdata ?A2 ! r ! k) = snd (rowdata ?A1 ! r ! k)" by simp
      then have "scaledBlock n m p (scaledBlock n m p ?B) = scaledBlock n m p ?B"
        using rk by (simp add: blk1 blk2)
      then have "addOthers n p ?B j (addOthers n p ?B j (?B ! p ! j)) = addOthers n p ?B j (?B ! p ! j)"
        using j by (simp add: scaledBlock_twice_same[OF ok assms(3)])
      then show "addOthers n p ?B j (snd (rowdata ?A1 ! r ! k) ! p ! j)
                   = snd (rowdata ?A1 ! r ! k) ! p ! j"
        using rk j by (simp add: p1j)
    qed
  next
    assume R: ?R
    have "scaledBlock n m p (scaledBlock n m p (snd (rowdata A ! r ! k)))
            = scaledBlock n m p (snd (rowdata A ! r ! k))"
      if rk: "r < length (rowdata A)" "k < length (rowdata A ! r)" for r k
    proof -
      let ?B = "snd (rowdata A ! r ! k)"
      have ok: "block_ok n m ?B" using assms(2) rk by (rule blocks_ok_nth)
      have "\<forall>j < m. addOthers n p ?B j (addOthers n p ?B j (?B ! p ! j))
                      = addOthers n p ?B j (?B ! p ! j)"
        using R rk by (simp add: p1j)
      then show ?thesis by (simp add: scaledBlock_twice_same[OF ok assms(3)])
    qed
    then have "map (map (\<lambda>e. (fst e, scaledBlock n m p (snd e)))) (rowdata ?A1) = rowdata ?A1"
      by (intro nth_equalityI) (auto simp: scaledMatrix_def)
    then show ?L by (simp add: scaledMatrix_def)
  qed
  show ?thesis using run1 g1 run2 g2 g21 pat rows same by blast
qed

theorem scaleMatrixQuasiImpes_twice_witness:
  "getmat [exampleMatrix] (MatrixAdapter 0 :: unit Operator) = Some exampleMatrix \<and>
   blocks_ok 2 2 exampleMatrix \<and> (0::nat) < 2 \<and>
   (\<exists>a1 op1 h1 A1 a2 op2 h2 A2.
      scaleMatrixQuasiImpes 2 2 [exampleMatrix] (MatrixAdapter 0) () 0 = Some ((a1, op1), h1) \<and>
      getmat h1 op1 = Some A1 \<and>
      scaleMatrixQuasiImpes 2 2 h1 op1 () 0 = Some ((a2, op2), h2) \<and>
      getmat h2 op2 = Some A2 \<and>
      snd (rowdata A1 ! 1 ! 1) ! 0 = [4, 6] \<and>
      snd (rowdata A2 ! 1 ! 1) ! 0 = [7, 10] \<and> A2 \<noteq> A1)"
proof -
  note ok = exampleMatrix_ok
  have p: "(0::nat) < 2" by simp
  obtain a1 op1 h1 A1 a2 op2 h2 A2 where
    run1: "scaleMatrixQuasiImpes 2 2 [exampleMatrix] (MatrixAdapter 0) () 0 = Some ((a1, op1), h1)"
    and g1: "getmat h1 op1 = Some A1"
    and run2: "scaleMatrixQuasiImpes 2 2 h1 op1 () 0 = Some ((a2, op2), h2)"
    and g2: "getmat h2 op2 = Some A2"
    and rows: "\<forall>r < length (rowdata exampleMatrix). \<forall>k < length (rowdata exampleMatrix ! r).
              snd (rowdata A1 ! r ! k) ! 0
                = map (\<lambda>j. addOthers 2 0 (snd (rowdata exampleMatrix ! r ! k)) j
                             (snd (rowdata exampleMatrix ! r ! k) ! 0 ! j)) [0..<2] \<and>
              snd (rowdata A2 ! r ! k) ! 0
                = map (\<lambda>j. addOthers 2 0 (snd (rowdata exampleMatrix ! r ! k)) j
                             (snd (rowdata A1 ! r ! k) ! 0 ! j)) [0..<2] \<and>
              (\<forall>i < 2. i \<noteq> 0 \<longrightarrow>
                 snd (rowdata A2 ! r ! k) ! i = snd (rowdata exampleMatrix ! r ! k) ! i)"
    and same: "A2 = A1 \<longleftrightarrow>
              (\<forall>r < length (rowdata exampleMatrix). \<forall>k < length (rowdata exampleMatrix ! r).
                 \<forall>j < 2. addOthers 2 0 (snd (rowdata exampleMatrix ! r ! k)) j
                            (snd (rowdata A1 ! r ! k) ! 0 ! j)
                          = snd (rowdata A1 ! r ! k) ! 0 ! j)"
    using scaleMatrixQuasiImpes_twice[OF ok p, of "()"] by blast
  have r: "1 < length (rowdata exampleMatrix)" and k: "1 < length (rowdata exampleMatrix ! 1)"
    by (simp_all add: exampleMatrix_def)
  have B: "snd (rowdata exampleMatrix ! 1 ! 1) = [[1, 2], [3, 4]]"
    by (simp add: exampleMatrix_def exampleBlock_def)
  have add: "addOthers 2 0 [[1, 2], [3, 4::int]] 0 x = x + 3"
    "addOthers 2 0 [[1, 2], [3, 4::int]] (Suc 0) x = x + 4" for x
    by (simp_all add: addOthers_def otherRows_def upt_conv_Cons)
  from rows r k have
    r1: "snd (rowdata A1 ! 1 ! 1) ! 0
       = map (\<lambda>j. addOthers 2 0 (snd (rowdata exampleMatrix ! 1 ! 1)) j
                    (snd (rowdata exampleMatrix ! 1 ! 1) ! 0 ! j)) [0..<2]"
    and r2: "snd (rowdata A2 ! 1 ! 1) ! 0
       = map (\<lambda>j. addOthers 2 0 (snd (rowdata exampleMatrix ! 1 ! 1)) j
                    (snd (rowdata A1 ! 1 ! 1) ! 0 ! j)) [0..<2]"
    by blast+
  from r1[unfolded B] have v1: "snd (rowdata A1 ! 1 ! 1) ! 0 = [4, 6]"
    by (simp add: add upt_conv_Cons)
  from r2[unfolded B v1] have v2: "snd (rowdata A2 ! 1 ! 1) ! 0 = [7, 10]"
    by (simp add: add upt_conv_Cons)
  have "A2 \<noteq> A1"
  proof
    assume "A2 = A1"
    then have "snd (rowdata A2 ! 1 ! 1) ! 0 = snd (rowdata A1 ! 1 ! 1) ! 0" by simp
    with v1 v2 show False by simp
  qed
  with ok run1 g1 run2 g2 v1 v2 show ?thesis by auto
qed

section \<open>Properties of the constructor and of the coarse solver\<close>

text \<open>
  Claim C10. \<open>scaleMatrixQuasiImpes\<close> writes only the address that it allocates, which
  is not the address of the matrix of the operator it is given; when the constructor
  of \<open>BlackoilAmg\<close> returns, every matrix that was in the store is as it was, and so is
  the matrix of the fine operator.
\<close>
theorem new_BlackoilAmg_leaves_fine_matrix:
  assumes "getmat h fineOperator = Some A" and "blocks_ok n m A" and "ci < n"
  shows "(\<exists>a op' h1.
            scaleMatrixQuasiImpes n m h fineOperator comm ci = Some ((a, op'), h1) \<and>
            a = length h \<and> mat_ref op' = a \<and> mat_ref fineOperator < a \<and>
            take (length h) h1 = h \<and> getmat h1 fineOperator = Some A) \<and>
         (\<exists>amg h'.
            new_BlackoilAmg constructFn newTwoLevelMethod n m ci h prm fineOperator crit smargs comm
              = Some (amg, h') \<and>
            mat_ref (snd (scaledMatrixOperator amg)) = length h \<and>
            take (length h) h' = h \<and> getmat h' fineOperator = Some A)"
proof -
  let ?A' = "scaledMatrix n m ci A"
  let ?op' = "createOperator fineOperator (length h) comm"
  have run: "scaleMatrixQuasiImpes n m h fineOperator comm ci
               = Some ((length h, ?op'), h @ [?A'])"
    by (rule scaleMatrixQuasiImpes_closed[OF assms])
  have old: "getmat (h @ [?A']) fineOperator = Some A"
    using assms(1) by (rule getmat_old)
  have lt: "mat_ref fineOperator < length h"
    using assms(1) by (simp add: getmat_def split: if_splits)
  have new: "getmat (h @ [?A']) ?op' = Some ?A'" by (rule getmat_fresh)
  have "\<exists>amg. new_BlackoilAmg constructFn newTwoLevelMethod n m ci h prm fineOperator crit smargs comm
              = Some (amg, h @ [?A']) \<and> snd (scaledMatrixOperator amg) = ?op'"
    by (simp add: new_BlackoilAmg_def run constructSmoother_def new Let_def)
  then show ?thesis
    using run old lt by (auto simp: mat_ref_createOperator)
qed

theorem new_BlackoilAmg_leaves_fine_matrix_witness:
  "getmat [exampleMatrix] (MatrixAdapter 0 :: unit Operator) = Some exampleMatrix \<and>
   blocks_ok 2 2 exampleMatrix \<and> (0::nat) < 2 \<and>
   (\<exists>amg h'.
      new_BlackoilAmg (\<lambda>A c a. ()) (\<lambda>op A sm ltp csp pre post. ()) 2 2 0 [exampleMatrix]
          exampleParam (MatrixAdapter 0) () () () = Some (amg, h') \<and>
      mat_ref (snd (scaledMatrixOperator amg)) = 1 \<and>
      h' ! 0 = exampleMatrix \<and> getmat h' (MatrixAdapter 0 :: unit Operator) = Some exampleMatrix)"
proof -
  note ok = exampleMatrix_ok
  have p: "(0::nat) < 2" by simp
  from new_BlackoilAmg_leaves_fine_matrix[OF ok p,
      of "()" "\<lambda>A c a. ()" "\<lambda>op A sm ltp csp pre post. ()" exampleParam "()" "()"]
  obtain amg h' where
    run: "new_BlackoilAmg (\<lambda>A c a. ()) (\<lambda>op A sm ltp csp pre post. ()) 2 2 0 [exampleMatrix]
          exampleParam (MatrixAdapter 0) () () () = Some (amg, h')"
    and r: "mat_ref (snd (scaledMatrixOperator amg)) = length [exampleMatrix]"
    and t: "take (length [exampleMatrix]) h' = [exampleMatrix]"
    and g: "getmat h' (MatrixAdapter 0 :: unit Operator) = Some exampleMatrix"
    by blast
  from t have "take 1 h' ! 0 = exampleMatrix" by simp
  then have "h' ! 0 = exampleMatrix" by simp
  with ok run r g show ?thesis by auto
qed

text \<open>
  Claim C9. The result of \<open>apply\<close> of the coarse solver is the same for any two values
  of the reduction, and the overload without a reduction agrees with it; the
  tolerance that the Krylov solver is built with is \<open>cpr_solver_tol\<close> of the parameters.
\<close>
theorem AMGInverseOperator_apply_ignores_reduction:
  "AMGInverseOperator_apply K amgInv x b r1 res = AMGInverseOperator_apply K amgInv x b r2 res \<and>
   AMGInverseOperator_apply_default K amgInv x b res = AMGInverseOperator_apply K amgInv x b r1 res \<and>
   AMGInverseOperator_apply K amgInv x b r1 res =
     (case (case inv_amg amgInv of
              Some a \<Rightarrow> Some (AMGPreconditioner a)
            | None \<Rightarrow> map_option SmootherPreconditioner (inv_smoother amgInv)) of
        None \<Rightarrow> None
      | Some pr \<Rightarrow>
          Some ((if cpr_use_bicgstab (inv_param amgInv) then BiCGSTABSolver K else CGSolver K)
                  (inv_op amgInv) (createScalarProduct K (inv_comm amgInv)) pr
                  (cpr_solver_tol (inv_param amgInv)) (cpr_max_ell_iter (inv_param amgInv))
                  (if cpr_solver_verbose (inv_param amgInv) \<and> rank K (inv_comm amgInv) = 0
                   then 1 else 0)
                  x b res))"
  by (simp add: AMGInverseOperator_apply_def AMGInverseOperator_apply_default_def Let_def
      split: option.splits)

section \<open>Properties of apply\<close>

lemma scaleVectorBlock_append:
  "scaleVectorBlock p (xs @ ys) block = scaleVectorBlock p xs block \<bind> scaleVectorBlock p ys"
  by (induction xs arbitrary: block) (auto split: bind_splits)

lemma scaleVectorBlock_upt:
  assumes "length block = n" "p < n" "k \<le> n"
  shows "scaleVectorBlock p [0..<k] block = Some (scaledVectorBlock k p block)"
  using \<open>k \<le> n\<close>
proof (induction k)
  case 0
  then show ?case by (simp add: scaledVectorBlock_def otherRows_def)
next
  case (Suc k)
  then have IH: "scaleVectorBlock p [0..<k] block = Some (scaledVectorBlock k p block)"
    and kn: "k < n" by simp_all
  show ?case
  proof (cases "k = p")
    case True
    have "scaledVectorBlock (Suc k) p block = scaledVectorBlock k p block"
      using True by (simp add: scaledVectorBlock_def otherRows_Suc)
    then show ?thesis using True IH by (simp add: scaleVectorBlock_append)
  next
    case False
    then show ?thesis
      using IH kn assms(1,2)
      by (simp add: scaleVectorBlock_append scaledVectorBlock_def otherRows_Suc)
  qed
qed

lemma scaleVectorQuasiImpes_closed:
  "list_all (\<lambda>b. length b = n) v \<Longrightarrow> p < n \<Longrightarrow>
   scaleVectorQuasiImpes n v p = Some (scaledVector n p v)"
  by (induction v) (simp_all add: scaledVector_def scaleVectorBlock_upt)

lemma scaledVectorBlock_pressure:
  "p < length block \<Longrightarrow>
   scaledVectorBlock n p block ! p
     = foldl (+) (block ! p) (map (\<lambda>i. block ! i) (filter (\<lambda>i. i \<noteq> p) [0..<n]))"
  by (simp add: scaledVectorBlock_def otherRows_def)

lemma scaledVectorBlock_other: "i \<noteq> p \<Longrightarrow> scaledVectorBlock n p block ! i = block ! i"
  by (simp add: scaledVectorBlock_def)

text \<open>
  Claim C7. \<open>apply\<close> scales a copy of the defect: in every block of the copy the
  pressure component is the pressure component of \<open>d\<close> to which its other components
  are added in increasing order of their index (with the addition of the field type,
  no law assumed of it), and the other components are those of \<open>d\<close>. The two-level method is called with \<open>v\<close> and
  this copy, which is a function of the value of \<open>d\<close> alone. The store afterwards
  differs from the store before at the address \<open>v\<close> only, so \<open>d\<close> is not modified.
\<close>
theorem BlackoilAmg_apply_defect:
  fixes s :: "'a::plus vecstore"
  assumes "v < length s" and "d < length s"
    and "list_all (\<lambda>b. length b = n) (s ! d)" and "ci < n"
  shows "\<exists>scaledD amg' s'.
           scaleVectorQuasiImpes n (s ! d) ci = Some scaledD \<and>
           length scaledD = length (s ! d) \<and>
           (\<forall>k < length (s ! d).
              length (scaledD ! k) = n \<and>
              scaledD ! k ! ci
                = foldl (+) (s ! d ! k ! ci)
                    (map (\<lambda>i. s ! d ! k ! i) (filter (\<lambda>i. i \<noteq> ci) [0..<n])) \<and>
              (\<forall>i < n. i \<noteq> ci \<longrightarrow> scaledD ! k ! i = s ! d ! k ! i)) \<and>
           BlackoilAmg_apply twoLevelApply n ci amg s v d = Some (amg', s') \<and>
           amg' = amg\<lparr>twoLevelMethod := fst (twoLevelApply (twoLevelMethod amg) (s ! v) scaledD)\<rparr> \<and>
           s' = s[v := snd (twoLevelApply (twoLevelMethod amg) (s ! v) scaledD)] \<and>
           (\<forall>k < length s. k \<noteq> v \<longrightarrow> s' ! k = s ! k) \<and>
           (d \<noteq> v \<longrightarrow> s' ! d = s ! d)"
proof -
  let ?sd = "scaledVector n ci (s ! d)"
  let ?r = "twoLevelApply (twoLevelMethod amg) (s ! v) ?sd"
  have sc: "scaleVectorQuasiImpes n (s ! d) ci = Some ?sd"
    using assms(3,4) by (rule scaleVectorQuasiImpes_closed)
  have blk: "length (?sd ! k) = n \<and>
      ?sd ! k ! ci
        = foldl (+) (s ! d ! k ! ci)
            (map (\<lambda>i. s ! d ! k ! i) (filter (\<lambda>i. i \<noteq> ci) [0..<n])) \<and>
      (\<forall>i < n. i \<noteq> ci \<longrightarrow> ?sd ! k ! i = s ! d ! k ! i)" if "k < length (s ! d)" for k
  proof -
    have len: "length (s ! d ! k) = n" using assms(3) that by (simp add: list_all_length)
    then show ?thesis
      using that assms(4)
      by (simp add: scaledVector_def scaledVectorBlock_pressure scaledVectorBlock_other)
        (simp add: scaledVectorBlock_def)
  qed
  have "(s @ [?sd])[v := snd ?r] = s[v := snd ?r] @ [?sd]"
    using assms(1) by (simp add: list_update_append)
  then have run: "BlackoilAmg_apply twoLevelApply n ci amg s v d
      = Some (amg\<lparr>twoLevelMethod := fst ?r\<rparr>, s[v := snd ?r])"
    using assms(1,2)
    by (simp add: BlackoilAmg_apply_def sc Let_def nth_append split_beta)
  have "length ?sd = length (s ! d)" by (simp add: scaledVector_def)
  with sc blk run show ?thesis using assms(2) by auto
qed

theorem BlackoilAmg_apply_defect_witness:
  "0 < length exampleStore \<and> 1 < length exampleStore \<and>
   list_all (\<lambda>b. length b = 2) (exampleStore ! 1) \<and> (0::nat) < 2 \<and>
   (\<exists>amg' s'.
      BlackoilAmg_apply (\<lambda>t x y. (y, y)) 2 0 exampleAmg exampleStore 0 1 = Some (amg', s') \<and>
      twoLevelMethod amg' ! 1 ! 0 = 7 \<and> twoLevelMethod amg' ! 1 ! 1 = 4 \<and>
      s' ! 0 ! 1 ! 0 = 7 \<and> s' ! 1 = [[1, 2], [3, 4]])"
proof -
  have h: "0 < length exampleStore" "1 < length exampleStore"
    "list_all (\<lambda>b. length b = 2) (exampleStore ! 1)" "(0::nat) < 2"
    by (simp_all add: exampleStore_def)
  from BlackoilAmg_apply_defect[OF h, of "\<lambda>t x y. (y, y)" exampleAmg]
  obtain scaledD amg' s' where
    blk: "\<forall>k < length (exampleStore ! 1).
              length (scaledD ! k) = 2 \<and>
              scaledD ! k ! 0
                = foldl (+) (exampleStore ! 1 ! k ! 0)
                    (map (\<lambda>i. exampleStore ! 1 ! k ! i) (filter (\<lambda>i. i \<noteq> 0) [0..<2])) \<and>
              (\<forall>i < 2. i \<noteq> 0 \<longrightarrow> scaledD ! k ! i = exampleStore ! 1 ! k ! i)"
    and run: "BlackoilAmg_apply (\<lambda>t x y. (y, y)) 2 0 exampleAmg exampleStore 0 1 = Some (amg', s')"
    and a: "amg' = exampleAmg\<lparr>twoLevelMethod := scaledD\<rparr>"
    and s: "s' = exampleStore[0 := scaledD]"
    and fr: "(1::nat) \<noteq> 0 \<longrightarrow> s' ! 1 = exampleStore ! 1"
    by auto
  have k: "1 < length (exampleStore ! 1)" by (simp add: exampleStore_def)
  from blk k have "scaledD ! 1 ! 0
                = foldl (+) (exampleStore ! 1 ! 1 ! 0)
                    (map (\<lambda>i. exampleStore ! 1 ! 1 ! i) (filter (\<lambda>i. i \<noteq> 0) [0..<2]))"
    and "scaledD ! 1 ! 1 = exampleStore ! 1 ! 1 ! 1" by auto
  then have v: "scaledD ! 1 ! 0 = 7" "scaledD ! 1 ! 1 = 4"
    by (simp_all add: exampleStore_def otherRows_def upt_conv_Cons)
  from fr have d: "s' ! 1 = [[1, 2], [3, 4]]" by (simp add: exampleStore_def)
  from s have "s' ! 0 = scaledD" by (simp add: exampleStore_def)
  with h run a v d show ?thesis by auto
qed

section \<open>Properties of createCoarseLevelSystem\<close>

lemma insertIndex_snoc:
  "\<forall>x \<in> set cs. x < c \<Longrightarrow> sorted cs \<Longrightarrow> insertIndex c cs = cs @ [c]"
  unfolding insertIndex_def
  by (auto simp: sorted_insort_is_snoc less_imp_le)

lemma foldl_insertIndex_sorted:
  "sorted_wrt (<) (acc @ map fst row) \<Longrightarrow>
   foldl (\<lambda>cs col. insertIndex (fst col) cs) acc row = acc @ map fst row"
proof (induction row arbitrary: acc)
  case Nil
  then show ?case by simp
next
  case (Cons e row)
  from Cons.prems have s: "sorted_wrt (<) acc" and lt: "\<forall>x \<in> set acc. x < fst e"
    by (auto simp: sorted_wrt_append)
  from s have "sorted acc" by (simp add: strict_sorted_iff)
  with lt have "insertIndex (fst e) acc = acc @ [fst e]" by (simp add: insertIndex_snoc)
  moreover have "sorted_wrt (<) ((acc @ [fst e]) @ map fst row)" using Cons.prems by simp
  ultimately show ?case using Cons.IH[of "acc @ [fst e]"] by simp
qed

lemma rowPattern_sorted: "sorted_wrt (<) (map fst row) \<Longrightarrow> rowPattern row = map fst row"
  unfolding rowPattern_def using foldl_insertIndex_sorted[of "[]" row] by simp

lemma block_ok_component:
  "block_ok n m B \<Longrightarrow> ci < n \<Longrightarrow> ci < m \<Longrightarrow> ci < length B \<and> ci < length (B ! ci)"
  by (simp add: block_ok_def list_all_length)

lemma fillRow_closed:
  "list_all (\<lambda>e. block_ok n m (snd e)) row \<Longrightarrow> ci < n \<Longrightarrow> ci < m \<Longrightarrow>
   fillRow ci row (map (\<lambda>e. (fst e, z)) row) = Some (map (\<lambda>e. (fst e, snd e ! ci ! ci)) row)"
  by (induction row) (auto dest: block_ok_component[where ci=ci])

lemma fillRows_closed:
  "list_all (list_all (\<lambda>e. block_ok n m (snd e))) rs \<Longrightarrow> ci < n \<Longrightarrow> ci < m \<Longrightarrow>
   fillRows ci rs (map (map (\<lambda>e. (fst e, z))) rs)
     = Some (map (map (\<lambda>e. (fst e, snd e ! ci ! ci))) rs)"
  by (induction rs) (simp_all add: fillRow_closed[where n=n and m=m])

text \<open>
  Claim C2. In direct-extraction mode, on a fine matrix whose rows are sorted and whose
  blocks contain the component index, \<open>createCoarseLevelSystem\<close> returns a policy whose
  coarse matrix has the stored positions and the numbers of rows and columns of the
  fine matrix, and whose entry at each position is the component
  \<open>[ci][ci]\<close> of the fine block there.
\<close>
theorem createCoarseLevelSystem_direct:
  fixes pol :: "('a::{plus,zero,one}, 'crit, 'c) LevelTransferPolicy"
  assumes "\<not> pressure_aggregation pol" and "getmat h fineOperator = Some A"
    and "rows_sorted A" and "blocks_ok n m A" and "ci < n" and "ci < m"
  shows "\<exists>pol' C.
           createCoarseLevelSystem buildAggregation ci pol h fineOperator = Some pol' \<and>
           coarseLevelMatrix pol' = Some C \<and>
           nonzeros C = nonzeros A \<and> pattern C = pattern A \<and>
           mat_N C = mat_N A \<and> mat_M C = mat_M A \<and>
           (\<forall>r < length (rowdata A). \<forall>k < length (rowdata A ! r).
              rowdata C ! r ! k
                = (fst (rowdata A ! r ! k), snd (rowdata A ! r ! k) ! ci ! ci))"
proof -
  let ?C = "\<lparr>ncols = mat_M A, rowdata = map (map (\<lambda>e. (fst e, snd e ! ci ! ci))) (rowdata A)\<rparr>"
  have pat: "map (\<lambda>row. map (\<lambda>c. (c, 0::'a)) (rowPattern row)) (rowdata A)
             = map (map (\<lambda>e. (fst e, 0))) (rowdata A)"
    using assms(3) by (intro map_cong) (auto simp: rows_sorted_def list_all_iff rowPattern_sorted)
  have fill: "fillRows ci (rowdata A) (map (\<lambda>row. map (\<lambda>c. (c, 0::'a)) (rowPattern row)) (rowdata A))
      = Some (rowdata ?C)"
    unfolding pat using assms(4-6) by (simp add: blocks_ok_def fillRows_closed[where n=n and m=m])
  have run: "\<exists>pol'. createCoarseLevelSystem buildAggregation ci pol h fineOperator = Some pol' \<and>
           coarseLevelMatrix pol' = Some ?C"
    using assms(1,2) fill by (simp add: createCoarseLevelSystem_def Let_def)
  have p: "pattern ?C = pattern A" by (simp add: pattern_def comp_def)
  then have nz: "nonzeros ?C = nonzeros A" by (rule nonzeros_cong)
  have d: "mat_N ?C = mat_N A" "mat_M ?C = mat_M A" by (simp_all add: mat_N_def mat_M_def)
  have e: "rowdata ?C ! r ! k = (fst (rowdata A ! r ! k), snd (rowdata A ! r ! k) ! ci ! ci)"
    if "r < length (rowdata A)" "k < length (rowdata A ! r)" for r k
    using that by simp
  from run p nz d e show ?thesis by blast
qed

theorem createCoarseLevelSystem_direct_witness:
  "\<not> pressure_aggregation examplePolicy \<and>
   getmat [exampleMatrix] (MatrixAdapter 0 :: unit Operator) = Some exampleMatrix \<and>
   rows_sorted exampleMatrix \<and> blocks_ok 2 2 exampleMatrix \<and> (1::nat) < 2 \<and>
   (\<exists>pol' C.
      createCoarseLevelSystem noAggregation 1 examplePolicy [exampleMatrix]
         (MatrixAdapter 0) = Some pol' \<and>
      coarseLevelMatrix pol' = Some C \<and>
      pattern C = [[0], [0, 1]] \<and> mat_N C = 2 \<and> mat_M C = 2 \<and> rowdata C ! 1 ! 1 = (1, 4))"
proof -
  have h: "\<not> pressure_aggregation examplePolicy"
    "getmat [exampleMatrix] (MatrixAdapter 0 :: unit Operator) = Some exampleMatrix"
    "rows_sorted exampleMatrix" "blocks_ok 2 2 exampleMatrix" "(1::nat) < 2" "(1::nat) < 2"
    using exampleMatrix_ok
    by (simp_all add: examplePolicy_def new_LevelTransferPolicy_def rows_sorted_def
        exampleMatrix_def)
  from createCoarseLevelSystem_direct[OF h, of noAggregation]
  obtain pol' C where
    run: "createCoarseLevelSystem noAggregation 1 examplePolicy [exampleMatrix]
         (MatrixAdapter 0) = Some pol'"
    and c: "coarseLevelMatrix pol' = Some C"
    and p: "pattern C = pattern exampleMatrix"
    and d: "mat_N C = mat_N exampleMatrix" "mat_M C = mat_M exampleMatrix"
    and e: "\<forall>r < length (rowdata exampleMatrix). \<forall>k < length (rowdata exampleMatrix ! r).
              rowdata C ! r ! k
                = (fst (rowdata exampleMatrix ! r ! k), snd (rowdata exampleMatrix ! r ! k) ! 1 ! 1)"
    by blast
  have r: "1 < length (rowdata exampleMatrix)" and k: "1 < length (rowdata exampleMatrix ! 1)"
    by (simp_all add: exampleMatrix_def)
  from e r k have "rowdata C ! 1 ! 1
      = (fst (rowdata exampleMatrix ! 1 ! 1), snd (rowdata exampleMatrix ! 1 ! 1) ! 1 ! 1)"
    by blast
  then have v: "rowdata C ! 1 ! 1 = (1, 4)" by (simp add: exampleMatrix_def exampleBlock_def)
  from p have p': "pattern C = [[0], [0, 1]]" by (simp add: pattern_def exampleMatrix_def)
  from d have d': "mat_N C = 2" "mat_M C = 2"
    by (simp_all add: mat_N_def mat_M_def exampleMatrix_def)
  from h run c p' d' v show ?thesis by auto
qed

section \<open>Properties of calculateCoarseEntries\<close>

lemma valued_cong: "(\<And>I J. f I J = g I J) \<Longrightarrow> valued pat f = valued pat g"
  by (simp add: valued_def)

lemma addToRowEntry_valued:
  "distinct cols \<Longrightarrow> j \<in> set cols \<Longrightarrow>
   addToRowEntry j v (map (\<lambda>J. (J, g J)) cols)
     = Some (map (\<lambda>J. (J, if J = j then g J + v else g J)) cols)"
proof (induction cols)
  case Nil
  then show ?case by simp
next
  case (Cons c cols)
  show ?case
  proof (cases "c = j")
    case True
    with Cons.prems have "j \<notin> set cols" by simp
    then have "map (\<lambda>J. (J, if J = j then g J + v else g J)) cols = map (\<lambda>J. (J, g J)) cols"
      by (intro map_cong) auto
    with True show ?thesis by simp
  next
    case False
    with Cons show ?thesis by simp
  qed
qed

lemma addToEntry_valued:
  assumes "i < length pat" "distinct (pat ! i)" "j \<in> set (pat ! i)"
  shows "addToEntry i j v (valued pat f)
           = Some (valued pat (\<lambda>I J. if I = i \<and> J = j then f I J + v else f I J))"
proof -
  have row: "valued pat f ! i = map (\<lambda>J. (J, f i J)) (pat ! i)"
    using assms(1) by (simp add: valued_def)
  have "(valued pat f)[i := map (\<lambda>J. (J, if J = j then f i J + v else f i J)) (pat ! i)]
        = valued pat (\<lambda>I J. if I = i \<and> J = j then f I J + v else f I J)"
  proof (rule nth_equalityI)
    show "length ((valued pat f)[i := map (\<lambda>J. (J, if J = j then f i J + v else f i J)) (pat ! i)])
          = length (valued pat (\<lambda>I J. if I = i \<and> J = j then f I J + v else f I J))"
      by (simp add: valued_def)
  next
    fix k
    assume "k < length ((valued pat f)[i := map (\<lambda>J. (J, if J = j then f i J + v else f i J)) (pat ! i)])"
    then have "k < length pat" by (simp add: valued_def)
    then show "(valued pat f)[i := map (\<lambda>J. (J, if J = j then f i J + v else f i J)) (pat ! i)] ! k
               = valued pat (\<lambda>I J. if I = i \<and> J = j then f I J + v else f I J) ! k"
      by (cases "k = i") (simp_all add: valued_def)
  qed
  then show ?thesis
    using assms by (simp add: addToEntry_def row addToRowEntry_valued valued_def)
qed

lemma accumulated_snoc:
  "accumulated a ci (es @ [e]) I J
     = (if contributes a I J e then accumulated a ci es I J + snd (snd e) ! ci ! ci
        else accumulated a ci es I J)"
  by (simp add: accumulated_def)

lemma accumulated_append_none:
  "\<forall>e \<in> set es'. \<not> contributes a I J e \<Longrightarrow>
   accumulated a ci (es @ es') I J = accumulated a ci es I J"
  by (simp add: accumulated_def)

lemma rowEntries_Cons:
  "rowEntries r (row # rows) = map (\<lambda>e. (r, fst e, snd e)) row @ rowEntries (Suc r) rows"
  by (simp add: rowEntries_def)

lemma coarseEntries_row_valued:
  fixes es :: "(nat \<times> nat \<times> 'a::{plus,zero} FieldMatrix) list"
  assumes "list_all (entry_ok a ci pat (a ! r)) row"
    and "a ! r < length pat \<longrightarrow> distinct (pat ! (a ! r))" and "a ! r \<noteq> ISOLATED"
  shows "coarseEntries_row (Some a) ci (a ! r) row (valued pat (accumulated a ci es))
           = Some (valued pat (accumulated a ci (es @ map (\<lambda>e. (r, fst e, snd e)) row)))"
  using assms(1)
proof (induction row arbitrary: es)
  case Nil
  then show ?case by simp
next
  case (Cons e row)
  from Cons.prems have ok: "entry_ok a ci pat (a ! r) e"
    and rest: "list_all (entry_ok a ci pat (a ! r)) row"
    by simp_all
  let ?es1 = "es @ [(r, fst e, snd e)]"
  have agg: "aggregateOf (Some a) (fst e) = Some (a ! fst e)"
    using ok by (simp add: aggregateOf_def entry_ok_def)
  have step: "(if a ! fst e \<noteq> ISOLATED
              then (if ci < length (snd e) \<and> ci < length (snd e ! ci)
                    then addToEntry (a ! r) (a ! fst e) (snd e ! ci ! ci)
                           (valued pat (accumulated a ci es))
                    else None)
              else Some (valued pat (accumulated a ci es)))
             = Some (valued pat (accumulated a ci ?es1))"
  proof (cases "a ! fst e = ISOLATED")
    case True
    have "valued pat (accumulated a ci es) = valued pat (accumulated a ci ?es1)"
      using True by (intro valued_cong) (simp add: accumulated_snoc contributes_def)
    with True show ?thesis by simp
  next
    case False
    with ok have c: "ci < length (snd e)" "ci < length (snd e ! ci)" "a ! r < length pat"
      "a ! fst e \<in> set (pat ! (a ! r))" by (simp_all add: entry_ok_def)
    with assms(2) have d: "distinct (pat ! (a ! r))" by simp
    have "valued pat (\<lambda>I J. if I = a ! r \<and> J = a ! fst e
                              then accumulated a ci es I J + snd e ! ci ! ci
                              else accumulated a ci es I J)
          = valued pat (accumulated a ci ?es1)"
      using False assms(3)
      by (intro valued_cong) (auto simp: accumulated_snoc contributes_def)
    then show ?thesis using False c d by (simp add: addToEntry_valued)
  qed
  have "?es1 @ map (\<lambda>e. (r, fst e, snd e)) row = es @ map (\<lambda>e. (r, fst e, snd e)) (e # row)"
    by simp
  then show ?case using Cons.IH[OF rest, of ?es1] agg step by simp
qed

lemma coarseEntries_rows_valued:
  fixes es :: "(nat \<times> nat \<times> 'a::{plus,zero} FieldMatrix) list"
  assumes "r + length rows \<le> length a"
    and "\<forall>x \<in> set (enumerate r rows).
           a ! fst x \<noteq> ISOLATED \<longrightarrow> list_all (entry_ok a ci pat (a ! fst x)) (snd x)"
    and "list_all distinct pat"
  shows "coarseEntries_rows (Some a) ci r rows (valued pat (accumulated a ci es))
           = Some (valued pat (accumulated a ci (es @ rowEntries r rows)))"
  using assms(1,2)
proof (induction rows arbitrary: r es)
  case Nil
  then show ?case by (simp add: rowEntries_def)
next
  case (Cons row rows)
  let ?es1 = "es @ map (\<lambda>e. (r, fst e, snd e)) row"
  have agg: "aggregateOf (Some a) r = Some (a ! r)"
    using Cons.prems(1) by (simp add: aggregateOf_def)
  have d: "a ! r < length pat \<longrightarrow> distinct (pat ! (a ! r))"
    using assms(3) by (simp add: list_all_length)
  have step: "(if a ! r \<noteq> ISOLATED
               then coarseEntries_row (Some a) ci (a ! r) row (valued pat (accumulated a ci es))
               else Some (valued pat (accumulated a ci es)))
              = Some (valued pat (accumulated a ci ?es1))"
  proof (cases "a ! r = ISOLATED")
    case True
    have "valued pat (accumulated a ci es) = valued pat (accumulated a ci ?es1)"
      using True
      by (intro valued_cong, subst accumulated_append_none) (auto simp: contributes_def)
    with True show ?thesis by simp
  next
    case False
    with Cons.prems(2) have "list_all (entry_ok a ci pat (a ! r)) row" by simp
    from coarseEntries_row_valued[OF this d False, of es] False show ?thesis by simp
  qed
  have p1: "Suc r + length rows \<le> length a" using Cons.prems(1) by simp
  have p2: "\<forall>x \<in> set (enumerate (Suc r) rows).
           a ! fst x \<noteq> ISOLATED \<longrightarrow> list_all (entry_ok a ci pat (a ! fst x)) (snd x)"
    using Cons.prems(2) by simp
  show ?case using Cons.IH[OF p1 p2, of ?es1] agg step by (simp add: rowEntries_Cons)
qed

lemma zeroed_valued:
  "map (map (\<lambda>e. (fst e, 0))) (rowdata C) = valued (pattern C) (\<lambda>I J. 0)"
  by (rule nth_equalityI) (simp_all add: valued_def pattern_def)

lemma pattern_valued: "map (map fst) (valued pat g) = pat"
  by (rule nth_equalityI) (simp_all add: valued_def comp_def)

lemma fineEntries_mem:
  "x \<in> set (enumerate 0 (rowdata A)) \<Longrightarrow> e \<in> set (snd x) \<Longrightarrow>
   (fst x, fst e, snd e) \<in> set (fineEntries A)"
  by (force simp: fineEntries_def rowEntries_def)

text \<open>
  Claim C3. In aggregation mode, when the aggregates map covers the rows and columns
  of the fine matrix and the pattern of the coarse matrix stores every position that
  a pair of non-isolated aggregates needs, \<open>calculateCoarseEntries\<close> returns, keeps the
  pattern, and leaves at every stored coarse position \<open>(I, J)\<close> the sum of the
  components \<open>[ci][ci]\<close> of exactly the fine entries whose row has aggregate \<open>I\<close> and
  whose column has aggregate \<open>J\<close>, neither isolated, whatever the coarse matrix
  held before: the sum that starts at \<open>0\<close> and adds these components one after the
  other in the order of the rows and, in a row, of its entries, with the addition of
  the field type and no law assumed of it. A fine entry with an isolated row or column
  is in no such sum.
\<close>
theorem calculateCoarseEntries_sums:
  fixes pol :: "('a::{plus,zero}, 'crit, 'c) LevelTransferPolicy"
  assumes "coarseLevelMatrix pol = Some C" and "aggregatesMap pol = Some a"
    and "mat_N A \<le> length a"
    and "\<forall>e \<in> set (fineEntries A). fst (snd e) < length a"
    and "blocks_ok n m A" and "ci < n" and "ci < m"
    and "list_all distinct (pattern C)"
    and "\<forall>e \<in> set (fineEntries A).
           a ! fst e \<noteq> ISOLATED \<and> a ! fst (snd e) \<noteq> ISOLATED
             \<longrightarrow> (a ! fst e, a ! fst (snd e)) \<in> nonzeros C"
  shows "\<exists>pol' C'.
           calculateCoarseEntries ci pol A = Some pol' \<and>
           coarseLevelMatrix pol' = Some C' \<and>
           pattern C' = pattern C \<and> mat_M C' = mat_M C \<and>
           (\<forall>I < length (rowdata C). \<forall>k < length (rowdata C ! I).
              rowdata C' ! I ! k
                = (fst (rowdata C ! I ! k), aggregatedSum a ci A I (fst (rowdata C ! I ! k))))"
proof -
  let ?pat = "pattern C"
  let ?g = "aggregatedSum a ci A"
  let ?C' = "C\<lparr>rowdata := valued ?pat ?g\<rparr>"
  have p1: "0 + length (rowdata A) \<le> length a" using assms(3) by (simp add: mat_N_def)
  have p2: "\<forall>x \<in> set (enumerate 0 (rowdata A)).
           a ! fst x \<noteq> ISOLATED \<longrightarrow> list_all (entry_ok a ci ?pat (a ! fst x)) (snd x)"
  proof (intro ballI impI)
    fix x assume x: "x \<in> set (enumerate 0 (rowdata A))" and iso: "a ! fst x \<noteq> ISOLATED"
    have "entry_ok a ci ?pat (a ! fst x) e" if e: "e \<in> set (snd x)" for e
    proof -
      have mem: "(fst x, fst e, snd e) \<in> set (fineEntries A)" using x e by (rule fineEntries_mem)
      with assms(4) have c: "fst e < length a" by force
      from x have "fst x < length (rowdata A)" "rowdata A ! fst x = snd x"
        by (simp_all add: in_set_enumerate_eq)
      then have "snd x \<in> set (rowdata A)" using nth_mem by metis
      with e assms(5) have "block_ok n m (snd e)" by (auto simp: blocks_ok_def list_all_iff)
      with assms(6,7) have b: "ci < length (snd e)" "ci < length (snd e ! ci)"
        by (simp_all add: block_ok_def list_all_length)
      have "a ! fst x < length ?pat \<and> a ! fst e \<in> set (?pat ! (a ! fst x))"
        if "a ! fst e \<noteq> ISOLATED"
        using assms(9) mem iso that by (force simp: nonzeros_def)
      with c b show ?thesis by (simp add: entry_ok_def)
    qed
    then show "list_all (entry_ok a ci ?pat (a ! fst x)) (snd x)" by (simp add: list_all_iff)
  qed
  have z: "valued ?pat (\<lambda>I J. 0::'a) = valued ?pat (accumulated a ci [])"
    by (intro valued_cong) (simp add: accumulated_def)
  have "coarseEntries_rows (Some a) ci 0 (rowdata A) (valued ?pat (accumulated a ci []))
        = Some (valued ?pat (accumulated a ci ([] @ rowEntries 0 (rowdata A))))"
    by (rule coarseEntries_rows_valued[OF p1 p2 assms(8)])
  also have "valued ?pat (accumulated a ci ([] @ rowEntries 0 (rowdata A))) = valued ?pat ?g"
    by (intro valued_cong) (simp add: aggregatedSum_def fineEntries_def)
  finally have run: "calculateCoarseEntries ci pol A = Some (pol\<lparr>coarseLevelMatrix := Some ?C'\<rparr>)"
    using assms(1,2) by (simp add: calculateCoarseEntries_def zeroed_valued z)
  have pat: "pattern ?C' = ?pat" by (simp add: pattern_def[of ?C'] pattern_valued)
  have m: "mat_M ?C' = mat_M C" by (simp add: mat_M_def)
  have e: "rowdata ?C' ! I ! k = (fst (rowdata C ! I ! k), ?g I (fst (rowdata C ! I ! k)))"
    if "I < length (rowdata C)" "k < length (rowdata C ! I)" for I k
    using that by (simp add: valued_def pattern_def)
  from run pat m e show ?thesis by auto
qed

theorem calculateCoarseEntries_sums_witness:
  "coarseLevelMatrix exampleAggregating = Some \<lparr>ncols = 1, rowdata = [[(0, 99)]]\<rparr> \<and>
   aggregatesMap exampleAggregating = Some [0, 0, ISOLATED] \<and>
   mat_N exampleFine \<le> length [0, 0, ISOLATED] \<and>
   blocks_ok 1 1 exampleFine \<and> (0::nat) < 1 \<and>
   list_all distinct (pattern \<lparr>ncols = 1, rowdata = [[(0, 99::int)]]\<rparr>) \<and>
   (\<exists>pol' C'.
      calculateCoarseEntries 0 exampleAggregating exampleFine = Some pol' \<and>
      coarseLevelMatrix pol' = Some C' \<and> rowdata C' ! 0 ! 0 = (0, 10))"
proof -
  let ?C = "\<lparr>ncols = 1, rowdata = [[(0, 99::int)]]\<rparr>"
  let ?a = "[0, 0, ISOLATED]"
  have fe: "fineEntries exampleFine
      = [(0, 0, [[1]]), (0, 1, [[2]]), (1, 0, [[3]]), (1, 1, [[4]]), (1, 2, [[5]]),
         (2, 1, [[6]]), (2, 2, [[7]])]"
    by (simp add: fineEntries_def rowEntries_def exampleFine_def)
  have iso: "(0::nat) \<noteq> ISOLATED" by (simp add: ISOLATED_def)
  have nz: "(0, 0) \<in> nonzeros ?C" by (simp add: nonzeros_def pattern_def)
  have h: "coarseLevelMatrix exampleAggregating = Some ?C"
    "aggregatesMap exampleAggregating = Some ?a"
    "mat_N exampleFine \<le> length ?a"
    "\<forall>e \<in> set (fineEntries exampleFine). fst (snd e) < length ?a"
    "blocks_ok 1 1 exampleFine" "(0::nat) < 1" "(0::nat) < 1"
    "list_all distinct (pattern ?C)"
    "\<forall>e \<in> set (fineEntries exampleFine).
           ?a ! fst e \<noteq> ISOLATED \<and> ?a ! fst (snd e) \<noteq> ISOLATED
             \<longrightarrow> (?a ! fst e, ?a ! fst (snd e)) \<in> nonzeros ?C"
  proof -
    show "coarseLevelMatrix exampleAggregating = Some ?C"
      "aggregatesMap exampleAggregating = Some ?a"
      by (simp_all add: exampleAggregating_def)
    show "mat_N exampleFine \<le> length ?a" "blocks_ok 1 1 exampleFine"
      by (simp_all add: mat_N_def exampleFine_def blocks_ok_def block_ok_def)
    show "(0::nat) < 1" "(0::nat) < 1" by simp_all
    show "list_all distinct (pattern ?C)" by (simp add: pattern_def)
    show "\<forall>e \<in> set (fineEntries exampleFine). fst (snd e) < length ?a"
      by (simp add: fe)
    show "\<forall>e \<in> set (fineEntries exampleFine).
           ?a ! fst e \<noteq> ISOLATED \<and> ?a ! fst (snd e) \<noteq> ISOLATED
             \<longrightarrow> (?a ! fst e, ?a ! fst (snd e)) \<in> nonzeros ?C"
      using nz by (simp add: fe)
  qed
  from calculateCoarseEntries_sums[OF h]
  obtain pol' C' where
    run: "calculateCoarseEntries 0 exampleAggregating exampleFine = Some pol'"
    and c: "coarseLevelMatrix pol' = Some C'"
    and e: "\<forall>I < length (rowdata ?C). \<forall>k < length (rowdata ?C ! I).
              rowdata C' ! I ! k
                = (fst (rowdata ?C ! I ! k), aggregatedSum ?a 0 exampleFine I (fst (rowdata ?C ! I ! k)))"
    by blast
  from e have "rowdata C' ! 0 ! 0 = (0, aggregatedSum ?a 0 exampleFine 0 0)" by simp
  also have "aggregatedSum ?a 0 exampleFine 0 0 = 10"
    using iso by (simp add: aggregatedSum_def accumulated_def fe contributes_def)
  finally have v: "rowdata C' ! 0 ! 0 = (0, 10)" .
  from h run c v show ?thesis by auto
qed

section \<open>Properties of the transfers between the levels\<close>

lemma prolongAggregated_closed:
  assumes "k + length bs \<le> length a"
    and "list_all (vertex_ok a ci (length l)) (enumerate k bs)"
  shows "prolongAggregated (Some a) ci k l bs
           = Some (map (\<lambda>x. if a ! fst x \<noteq> ISOLATED
                              then (snd x)[ci := snd x ! ci + l ! (a ! fst x)] else snd x)
                    (enumerate k bs))"
  using assms
proof (induction bs arbitrary: k)
  case Nil
  then show ?case by simp
next
  case (Cons b bs)
  have agg: "aggregateOf (Some a) k = Some (a ! k)"
    using Cons.prems(1) by (simp add: aggregateOf_def)
  have IH: "prolongAggregated (Some a) ci (Suc k) l bs
           = Some (map (\<lambda>x. if a ! fst x \<noteq> ISOLATED
                              then (snd x)[ci := snd x ! ci + l ! (a ! fst x)] else snd x)
                    (enumerate (Suc k) bs))"
    using Cons.prems by (intro Cons.IH) simp_all
  from Cons.prems(2) have "vertex_ok a ci (length l) (k, b)" by simp
  then show ?case using agg IH by (simp add: vertex_ok_def)
qed

lemma prolongDirect_closed:
  assumes "k + length bs \<le> length l" and "list_all (\<lambda>b. ci < length b) bs"
  shows "prolongDirect ci k l bs = Some (map (\<lambda>x. (snd x)[ci := l ! fst x]) (enumerate k bs))"
  using assms by (induction bs arbitrary: k) simp_all

lemma restrictDirect_closed:
  assumes "k + length bs \<le> length r" and "list_all (\<lambda>b. ci < length b) bs"
  shows "restrictDirect ci k bs r
           = Some (map (\<lambda>j. if k \<le> j \<and> j < k + length bs then bs ! (j - k) ! ci else r ! j)
                    [0..<length r])"
  using assms
proof (induction bs arbitrary: k r)
  case Nil
  have "map (\<lambda>j. if k \<le> j \<and> j < k + length [] then [] ! (j - k) ! ci else r ! j) [0..<length r] = r"
    by (rule nth_equalityI) auto
  then show ?case by simp
next
  case (Cons b bs)
  let ?r1 = "r[k := b ! ci]"
  have IH: "restrictDirect ci (Suc k) bs ?r1
      = Some (map (\<lambda>j. if Suc k \<le> j \<and> j < Suc k + length bs then bs ! (j - Suc k) ! ci
                         else ?r1 ! j) [0..<length ?r1])"
    using Cons.prems by (intro Cons.IH) simp_all
  have "map (\<lambda>j. if Suc k \<le> j \<and> j < Suc k + length bs then bs ! (j - Suc k) ! ci
                         else ?r1 ! j) [0..<length ?r1]
        = map (\<lambda>j. if k \<le> j \<and> j < k + length (b # bs) then (b # bs) ! (j - k) ! ci else r ! j)
            [0..<length r]"
    by (rule nth_equalityI) (auto simp: nth_list_update nth_Cons')
  with IH show ?case using Cons.prems by simp
qed

lemma restricted_Cons:
  "restricted a ci k (b # bs) A x
     = restricted a ci (Suc k) bs A
         (if a ! k = A \<and> a ! k \<noteq> ISOLATED then x + b ! ci else x)"
  by (simp add: restricted_def)

lemma restrictAggregated_closed:
  fixes r :: "'a::plus list"
  assumes "k + length bs \<le> length a"
    and "list_all (vertex_ok a ci (length r)) (enumerate k bs)"
  shows "restrictAggregated (Some a) ci k bs r
           = Some (map (\<lambda>A. restricted a ci k bs A (r ! A)) [0..<length r])"
  using assms
proof (induction bs arbitrary: k r)
  case Nil
  have "map (\<lambda>A. restricted a ci k [] A (r ! A)) [0..<length r] = r"
    by (rule nth_equalityI) (simp_all add: restricted_def)
  then show ?case by simp
next
  case (Cons b bs)
  have agg: "aggregateOf (Some a) k = Some (a ! k)"
    using Cons.prems(1) by (simp add: aggregateOf_def)
  from Cons.prems(2) have ok: "vertex_ok a ci (length r) (k, b)" by simp
  let ?r1 = "map (\<lambda>A. if a ! k = A \<and> a ! k \<noteq> ISOLATED then r ! A + b ! ci else r ! A)
               [0..<length r]"
  have step: "(if a ! k \<noteq> ISOLATED
              then (if a ! k < length r \<and> ci < length b
                    then Some (r[a ! k := r ! (a ! k) + b ! ci]) else None)
              else Some r) = Some ?r1"
  proof (cases "a ! k = ISOLATED")
    case True
    have "?r1 = r" using True by (intro nth_equalityI) simp_all
    with True show ?thesis by simp
  next
    case False
    with ok have c: "a ! k < length r" "ci < length b" by (simp_all add: vertex_ok_def)
    have "r[a ! k := r ! (a ! k) + b ! ci] = ?r1"
      using False by (intro nth_equalityI) (auto simp: nth_list_update)
    with False c show ?thesis by simp
  qed
  have IH: "restrictAggregated (Some a) ci (Suc k) bs ?r1
      = Some (map (\<lambda>A. restricted a ci (Suc k) bs A (?r1 ! A)) [0..<length ?r1])"
    using Cons.prems by (intro Cons.IH) simp_all
  have "map (\<lambda>A. restricted a ci (Suc k) bs A (?r1 ! A)) [0..<length ?r1]
        = map (\<lambda>A. restricted a ci k (b # bs) A (r ! A)) [0..<length r]"
    by (rule nth_equalityI) (simp_all add: restricted_Cons)
  with IH agg step show ?case by simp
qed

lemma vertex_ok_enumerate:
  assumes "list_all (\<lambda>b. ci < length b) fine"
    and "\<forall>k < length fine. a ! k \<noteq> ISOLATED \<longrightarrow> a ! k < len"
  shows "list_all (vertex_ok a ci len) (enumerate 0 fine)"
  using assms
  by (auto simp: list_all_iff vertex_ok_def in_set_enumerate_eq)

lemma moveToFineLevel_aggregated:
  fixes pol :: "('a::{plus,times}, 'crit, 'c) LevelTransferPolicy"
  assumes "pressure_aggregation pol" and "prolongDamp pol = Some damp"
    and "aggregatesMap pol = Some a" and "length fine \<le> length a"
    and "list_all (\<lambda>b. ci < length b) fine"
    and "\<forall>k < length fine. a ! k \<noteq> ISOLATED \<longrightarrow> a ! k < length (lhs pol)"
  shows "moveToFineLevel copyOwnerToAll ci pol fine
           = Some (pol\<lparr>lhs := map (\<lambda>x. x * damp) (lhs pol)\<rparr>,
                   copyOwnerToAll (communication pol)
                     (map (\<lambda>x. if a ! fst x \<noteq> ISOLATED
                               then (snd x)[ci := snd x ! ci + lhs pol ! (a ! fst x) * damp]
                               else snd x) (enumerate 0 fine))
                     (map (\<lambda>x. if a ! fst x \<noteq> ISOLATED
                               then (snd x)[ci := snd x ! ci + lhs pol ! (a ! fst x) * damp]
                               else snd x) (enumerate 0 fine)))"
proof -
  let ?l = "map (\<lambda>x. x * damp) (lhs pol)"
  have ok: "list_all (vertex_ok a ci (length ?l)) (enumerate 0 fine)"
    using assms(5,6) by (intro vertex_ok_enumerate) simp_all
  have "prolongAggregated (Some a) ci 0 ?l fine
           = Some (map (\<lambda>x. if a ! fst x \<noteq> ISOLATED
                              then (snd x)[ci := snd x ! ci + ?l ! (a ! fst x)] else snd x)
                    (enumerate 0 fine))"
    using assms(4) ok by (intro prolongAggregated_closed) simp_all
  also have "map (\<lambda>x. if a ! fst x \<noteq> ISOLATED
                              then (snd x)[ci := snd x ! ci + ?l ! (a ! fst x)] else snd x)
                    (enumerate 0 fine)
             = map (\<lambda>x. if a ! fst x \<noteq> ISOLATED
                          then (snd x)[ci := snd x ! ci + lhs pol ! (a ! fst x) * damp]
                          else snd x) (enumerate 0 fine)"
    using assms(6) by (intro map_cong refl) (auto simp: in_set_enumerate_eq)
  finally show ?thesis
    using assms(1-3) by (simp add: moveToFineLevel_def Let_def)
qed

lemma moveToFineLevel_direct:
  assumes "\<not> pressure_aggregation pol" and "length fine \<le> length (lhs pol)"
    and "list_all (\<lambda>b. ci < length b) fine"
  shows "moveToFineLevel copyOwnerToAll ci pol fine
           = Some (pol, map (\<lambda>x. (snd x)[ci := lhs pol ! fst x]) (enumerate 0 fine))"
  using assms by (simp add: moveToFineLevel_def prolongDirect_closed)

text \<open>
  Claim C5. \<open>moveToFineLevel\<close> is claimed to add the coarse solution to the pressure
  component in every mode. In direct-extraction mode the code assigns instead: on a
  fine vector whose pressure component is \<open>5\<close>, with the coarse solution \<open>3\<close>, it
  returns \<open>3\<close>, where adding gives \<open>8\<close>.
\<close>

theorem moveToFineLevel_direct_overwrites:
  "\<not> pressure_aggregation (examplePolicy\<lparr>lhs := [3]\<rparr>) \<and>
   moveToFineLevel sequential_copyOwnerToAll 0 (examplePolicy\<lparr>lhs := [3]\<rparr>) [[5]]
     = Some (examplePolicy\<lparr>lhs := [3]\<rparr>, [[3]]) \<and>
   [[3::int]] ! 0 ! 0 \<noteq> [[5]] ! 0 ! 0 + lhs (examplePolicy\<lparr>lhs := [3]\<rparr>) ! 0"
  by (simp add: moveToFineLevel_def examplePolicy_def new_LevelTransferPolicy_def)

lemma moveToCoarseLevel_direct:
  fixes pol :: "('a::{plus,zero}, 'crit, 'c) LevelTransferPolicy"
  assumes "\<not> pressure_aggregation pol" and "length fine \<le> length (rhs pol)"
    and "list_all (\<lambda>b. ci < length b) fine"
  shows "moveToCoarseLevel ci pol fine
           = Some (pol\<lparr>rhs := map (\<lambda>j. if j < length fine then fine ! j ! ci else 0)
                                 [0..<length (rhs pol)],
                       lhs := map (\<lambda>x. 0) (lhs pol)\<rparr>)"
proof -
  have "restrictDirect ci 0 fine (map (\<lambda>x. 0) (rhs pol))
        = Some (map (\<lambda>j. if 0 \<le> j \<and> j < 0 + length fine then fine ! (j - 0) ! ci
                           else map (\<lambda>x. 0) (rhs pol) ! j)
                  [0..<length (map (\<lambda>x. 0::'a) (rhs pol))])"
    using assms(2,3) by (intro restrictDirect_closed) simp_all
  also have "map (\<lambda>j. if 0 \<le> j \<and> j < 0 + length fine then fine ! (j - 0) ! ci
                           else map (\<lambda>x. 0) (rhs pol) ! j)
                  [0..<length (map (\<lambda>x. 0::'a) (rhs pol))]
             = map (\<lambda>j. if j < length fine then fine ! j ! ci else 0) [0..<length (rhs pol)]"
    by (rule nth_equalityI) simp_all
  finally show ?thesis using assms(1) by (simp add: moveToCoarseLevel_def)
qed

lemma moveToCoarseLevel_aggregated:
  fixes pol :: "('a::{plus,zero}, 'crit, 'c) LevelTransferPolicy"
  assumes "pressure_aggregation pol" and "aggregatesMap pol = Some a"
    and "length fine \<le> length a" and "list_all (\<lambda>b. ci < length b) fine"
    and "\<forall>k < length fine. a ! k \<noteq> ISOLATED \<longrightarrow> a ! k < length (rhs pol)"
  shows "moveToCoarseLevel ci pol fine
           = Some (pol\<lparr>rhs := map (\<lambda>A. restricted a ci 0 fine A 0) [0..<length (rhs pol)],
                       lhs := map (\<lambda>x. 0) (lhs pol)\<rparr>)"
proof -
  let ?z = "map (\<lambda>x. 0::'a) (rhs pol)"
  have ok: "list_all (vertex_ok a ci (length ?z)) (enumerate 0 fine)"
    using assms(4,5) by (intro vertex_ok_enumerate) simp_all
  have "restrictAggregated (Some a) ci 0 fine ?z
        = Some (map (\<lambda>A. restricted a ci 0 fine A (?z ! A)) [0..<length ?z])"
    using assms(3) ok by (intro restrictAggregated_closed) simp_all
  also have "map (\<lambda>A. restricted a ci 0 fine A (?z ! A)) [0..<length ?z]
             = map (\<lambda>A. restricted a ci 0 fine A 0) [0..<length (rhs pol)]"
    by (rule nth_equalityI) simp_all
  finally show ?thesis using assms(1,2) by (simp add: moveToCoarseLevel_def)
qed

lemma map_constant: "\<forall>x \<in> set xs. f x = c \<Longrightarrow> map f xs = replicate (length xs) c"
  by (induction xs) simp_all

lemma length_filter_enumerate:
  "length (filter (\<lambda>y. Q (fst y)) (enumerate n xs)) = length (filter Q [n..<n + length xs])"
proof -
  have "filter Q (map fst (enumerate n xs)) = map fst (filter (Q \<circ> fst) (enumerate n xs))"
    by (rule filter_map)
  then have "length (filter Q (map fst (enumerate n xs)))
             = length (filter (\<lambda>y. Q (fst y)) (enumerate n xs))"
    by (simp add: comp_def)
  then show ?thesis by simp
qed

lemma restricted_constant:
  assumes "\<forall>k < length fine. fine ! k ! ci = c" and "A \<noteq> ISOLATED"
  shows "restricted a ci 0 fine A x
           = foldl (+) x (replicate (aggregateSize a (length fine) A) c)"
proof -
  let ?ys = "filter (\<lambda>y. a ! fst y = A \<and> a ! fst y \<noteq> ISOLATED) (enumerate 0 fine)"
  have f: "?ys = filter (\<lambda>y. a ! fst y = A) (enumerate 0 fine)"
    using assms(2) by (intro filter_cong refl) auto
  have "\<forall>y \<in> set ?ys. snd y ! ci = c"
    using assms(1) by (auto simp: in_set_enumerate_eq)
  then have "map (\<lambda>y. snd y ! ci) ?ys = replicate (length ?ys) c" by (rule map_constant)
  moreover have "length ?ys = aggregateSize a (length fine) A"
    unfolding f aggregateSize_def
    using length_filter_enumerate[of "\<lambda>k. a ! k = A" 0 fine] by simp
  ultimately show ?thesis by (simp add: restricted_def)
qed

text \<open>
  In aggregation mode the round trip does not reproduce the constant: with two
  vertices in one aggregate and the constant \<open>1\<close>, both receive \<open>2\<close>.
\<close>

theorem restrictThenProlong_aggregated_counterexample:
  "pressure_aggregation exampleAggregating \<and>
   aggregatesMap exampleAggregating = Some [0, 0, ISOLATED] \<and>
   prolongDamp exampleAggregating = Some 1 \<and> (0::nat) \<noteq> ISOLATED \<and>
   restrictThenProlong sequential_copyOwnerToAll 0 exampleAggregating [[1], [1], [1]]
     = Some [[2], [2], [0]] \<and>
   [[2], [2], [0::int]] ! 0 ! 0 \<noteq> 1"
  by (simp add: restrictThenProlong_def moveToCoarseLevel_def moveToFineLevel_def
      exampleAggregating_def aggregateOf_def ISOLATED_def sequential_copyOwnerToAll_def Let_def)

lemma restrictThenProlong_direct:
  fixes pol :: "('a::{plus,times,zero}, 'crit, 'c) LevelTransferPolicy"
  assumes "\<not> pressure_aggregation pol" and "length fine \<le> length (rhs pol)"
    and "list_all (\<lambda>b. ci < length b) fine"
  shows "restrictThenProlong copyOwnerToAll ci pol fine
           = Some (map (\<lambda>x. (map (\<lambda>y. 0) (snd x))[ci := snd x ! ci]) (enumerate 0 fine))"
proof -
  let ?R = "map (\<lambda>j. if j < length fine then fine ! j ! ci else 0) [0..<length (rhs pol)]"
  let ?p1 = "pol\<lparr>rhs := ?R, lhs := map (\<lambda>x. 0) (lhs pol)\<rparr>"
  let ?p2 = "?p1\<lparr>lhs := rhs ?p1\<rparr>"
  let ?f0 = "map (map (\<lambda>x. 0::'a)) fine"
  have c: "moveToCoarseLevel ci pol fine = Some ?p1"
    by (rule moveToCoarseLevel_direct[OF assms])
  have f: "moveToFineLevel copyOwnerToAll ci ?p2 ?f0
        = Some (?p2, map (\<lambda>x. (snd x)[ci := lhs ?p2 ! fst x]) (enumerate 0 ?f0))"
    using assms by (intro moveToFineLevel_direct) (simp_all add: list_all_iff)
  have "map (\<lambda>x. (snd x)[ci := lhs ?p2 ! fst x]) (enumerate 0 ?f0)
        = map (\<lambda>x. (map (\<lambda>y. 0) (snd x))[ci := snd x ! ci]) (enumerate 0 fine)"
    using assms(2) by (intro nth_equalityI) (simp_all add: nth_enumerate_eq)
  with c f show ?thesis by (simp add: restrictThenProlong_def)
qed

lemma restrictThenProlong_aggregated:
  fixes pol :: "('a::{plus,times,zero}, 'crit, 'c) LevelTransferPolicy"
  assumes "pressure_aggregation pol" and "prolongDamp pol = Some damp"
    and "aggregatesMap pol = Some a" and "length fine \<le> length a"
    and "list_all (\<lambda>b. ci < length b) fine"
    and "\<forall>k < length fine. a ! k \<noteq> ISOLATED \<longrightarrow> a ! k < length (rhs pol)"
  shows "restrictThenProlong copyOwnerToAll ci pol fine
           = Some (copyOwnerToAll (communication pol)
                     (map (\<lambda>x. if a ! fst x \<noteq> ISOLATED
                               then (map (\<lambda>y. 0) (snd x))
                                      [ci := 0 + restricted a ci 0 fine (a ! fst x) 0 * damp]
                               else map (\<lambda>y. 0) (snd x))
                        (enumerate 0 fine))
                     (map (\<lambda>x. if a ! fst x \<noteq> ISOLATED
                               then (map (\<lambda>y. 0) (snd x))
                                      [ci := 0 + restricted a ci 0 fine (a ! fst x) 0 * damp]
                               else map (\<lambda>y. 0) (snd x))
                        (enumerate 0 fine)))"
proof -
  let ?R = "map (\<lambda>A. restricted a ci 0 fine A 0) [0..<length (rhs pol)]"
  let ?p1 = "pol\<lparr>rhs := ?R, lhs := map (\<lambda>x. 0) (lhs pol)\<rparr>"
  let ?p2 = "?p1\<lparr>lhs := rhs ?p1\<rparr>"
  let ?zero = "map (map (\<lambda>x. 0::'a)) fine"
  let ?pre = "map (\<lambda>x. if a ! fst x \<noteq> ISOLATED
                       then (snd x)[ci := snd x ! ci + lhs ?p2 ! (a ! fst x) * damp]
                       else snd x) (enumerate 0 ?zero)"
  let ?acc = "map (\<lambda>x. if a ! fst x \<noteq> ISOLATED
                      then (map (\<lambda>y. 0) (snd x))
                             [ci := 0 + restricted a ci 0 fine (a ! fst x) 0 * damp]
                      else map (\<lambda>y. 0) (snd x))
                (enumerate 0 fine)"
  have c: "moveToCoarseLevel ci pol fine = Some ?p1"
    by (rule moveToCoarseLevel_aggregated[OF assms(1,3,4,5,6)])
  have q: "pressure_aggregation ?p2" "prolongDamp ?p2 = Some damp" "aggregatesMap ?p2 = Some a"
    "length ?zero \<le> length a" "list_all (\<lambda>b. ci < length b) ?zero"
    "\<forall>k < length ?zero. a ! k \<noteq> ISOLATED \<longrightarrow> a ! k < length (lhs ?p2)"
    using assms by (simp_all add: list_all_iff)
  have f: "moveToFineLevel copyOwnerToAll ci ?p2 ?zero
        = Some (?p2\<lparr>lhs := map (\<lambda>x. x * damp) (lhs ?p2)\<rparr>,
                copyOwnerToAll (communication ?p2) ?pre ?pre)"
    using moveToFineLevel_aggregated[OF q, of copyOwnerToAll] by simp
  have "?pre = ?acc"
  proof (rule nth_equalityI)
    show "length ?pre = length ?acc" by simp
  next
    fix k
    assume "k < length ?pre"
    then have k: "k < length fine" by simp
    with assms(5) have ci: "ci < length (fine ! k)" by (simp add: list_all_length)
    from k assms(6) have "a ! k \<noteq> ISOLATED \<Longrightarrow> a ! k < length (rhs pol)" by simp
    with k ci show "?pre ! k = ?acc ! k" by (simp add: nth_enumerate_eq)
  qed
  with c f show ?thesis by (simp add: restrictThenProlong_def)
qed

text \<open>
  Claim C4, amended. For a fine vector whose pressure component is \<open>c\<close> in every block,
  restriction followed by prolongation of the restricted value onto the zero vector
  gives, in direct-extraction mode, \<open>c\<close> at the pressure component of every vertex. In
  aggregation mode, with the damping factor \<open>1\<close>, the result is what \<open>copyOwnerToAll\<close>
  of the communication object makes of the vector that holds, at the pressure
  component of every vertex that is not isolated, the restricted value of its
  aggregate, which is \<open>c\<close> added to \<open>0\<close> once for every fine vertex of that aggregate
  (then multiplied by the damping factor and added to the \<open>0\<close> of the zero vector),
  and \<open>0\<close> at every isolated vertex.
\<close>

theorem restrictThenProlong_constant:
  fixes pol :: "('a::{plus,times,zero,one}, 'crit, 'c) LevelTransferPolicy"
  assumes "list_all (\<lambda>b. ci < length b) fine" and "\<forall>k < length fine. fine ! k ! ci = c"
  shows "(\<not> pressure_aggregation pol \<longrightarrow> length fine \<le> length (rhs pol) \<longrightarrow>
          (\<exists>fine'.
             restrictThenProlong copyOwnerToAll ci pol fine = Some fine' \<and>
             length fine' = length fine \<and>
             (\<forall>k < length fine. fine' ! k ! ci = c))) \<and>
         (pressure_aggregation pol \<longrightarrow> prolongDamp pol = Some 1 \<longrightarrow>
          aggregatesMap pol = Some a \<longrightarrow> length fine \<le> length a \<longrightarrow>
          (\<forall>k < length fine. a ! k \<noteq> ISOLATED \<longrightarrow> a ! k < length (rhs pol)) \<longrightarrow>
          (\<exists>acc.
             restrictThenProlong copyOwnerToAll ci pol fine
               = Some (copyOwnerToAll (communication pol) acc acc) \<and>
             length acc = length fine \<and>
             (\<forall>k < length fine.
                (a ! k \<noteq> ISOLATED \<longrightarrow>
                   acc ! k ! ci
                     = 0 + foldl (+) 0 (replicate (aggregateSize a (length fine) (a ! k)) c) * 1) \<and>
                (a ! k = ISOLATED \<longrightarrow> acc ! k ! ci = 0))))"
proof (intro conjI impI)
  assume h: "\<not> pressure_aggregation pol" "length fine \<le> length (rhs pol)"
  let ?f = "map (\<lambda>x. (map (\<lambda>y. 0) (snd x))[ci := snd x ! ci]) (enumerate 0 fine)"
  have "restrictThenProlong copyOwnerToAll ci pol fine = Some ?f"
    by (rule restrictThenProlong_direct[OF h assms(1)])
  moreover have "length ?f = length fine" by simp
  moreover have "?f ! k ! ci = c" if "k < length fine" for k
    using that assms by (simp add: nth_enumerate_eq list_all_length)
  ultimately show "\<exists>fine'.
             restrictThenProlong copyOwnerToAll ci pol fine = Some fine' \<and>
             length fine' = length fine \<and>
             (\<forall>k < length fine. fine' ! k ! ci = c)"
    by blast
next
  assume h: "pressure_aggregation pol" "prolongDamp pol = Some 1" "aggregatesMap pol = Some a"
    "length fine \<le> length a"
    "\<forall>k < length fine. a ! k \<noteq> ISOLATED \<longrightarrow> a ! k < length (rhs pol)"
  let ?acc = "map (\<lambda>x. if a ! fst x \<noteq> ISOLATED
                      then (map (\<lambda>y. 0) (snd x))
                             [ci := 0 + restricted a ci 0 fine (a ! fst x) 0 * 1]
                      else map (\<lambda>y. 0) (snd x))
                (enumerate 0 fine)"
  have "restrictThenProlong copyOwnerToAll ci pol fine
          = Some (copyOwnerToAll (communication pol) ?acc ?acc)"
    by (rule restrictThenProlong_aggregated[OF h(1-4) assms(1) h(5)])
  moreover have "length ?acc = length fine" by simp
  moreover have "(a ! k \<noteq> ISOLATED \<longrightarrow>
                   ?acc ! k ! ci
                     = 0 + foldl (+) 0 (replicate (aggregateSize a (length fine) (a ! k)) c) * 1) \<and>
                (a ! k = ISOLATED \<longrightarrow> ?acc ! k ! ci = 0)" if "k < length fine" for k
  proof -
    have ci: "ci < length (fine ! k)" using that assms(1) by (simp add: list_all_length)
    show ?thesis
      using that ci restricted_constant[OF assms(2), of "a ! k" a 0]
      by (simp add: nth_enumerate_eq)
  qed
  ultimately show "\<exists>acc.
             restrictThenProlong copyOwnerToAll ci pol fine
               = Some (copyOwnerToAll (communication pol) acc acc) \<and>
             length acc = length fine \<and>
             (\<forall>k < length fine.
                (a ! k \<noteq> ISOLATED \<longrightarrow>
                   acc ! k ! ci
                     = 0 + foldl (+) 0 (replicate (aggregateSize a (length fine) (a ! k)) c) * 1) \<and>
                (a ! k = ISOLATED \<longrightarrow> acc ! k ! ci = 0))"
    by blast
qed

theorem restrictThenProlong_constant_witness:
  "list_all (\<lambda>b. 0 < length b) [[4], [4], [4::int]] \<and>
   \<not> pressure_aggregation (examplePolicy\<lparr>rhs := [0, 0, 0]\<rparr>) \<and>
   (\<exists>fine'.
      restrictThenProlong sequential_copyOwnerToAll 0 (examplePolicy\<lparr>rhs := [0, 0, 0]\<rparr>)
          [[4], [4], [4]] = Some fine' \<and>
      fine' ! 0 ! 0 = 4 \<and> fine' ! 1 ! 0 = 4 \<and> fine' ! 2 ! 0 = 4) \<and>
   pressure_aggregation exampleAggregating \<and> prolongDamp exampleAggregating = Some 1 \<and>
   aggregatesMap exampleAggregating = Some [0, 0, ISOLATED] \<and>
   (\<exists>acc.
      restrictThenProlong sequential_copyOwnerToAll 0 exampleAggregating [[4], [4], [4]]
        = Some (sequential_copyOwnerToAll (communication exampleAggregating) acc acc) \<and>
      acc ! 0 ! 0 = 8 \<and> acc ! 1 ! 0 = 8 \<and> acc ! 2 ! 0 = 0)"
proof -
  let ?fine = "[[4], [4], [4::int]]"
  let ?pd = "examplePolicy\<lparr>rhs := [0, 0, 0]\<rparr>"
  let ?a = "[0, 0, ISOLATED]"
  have iso: "(0::nat) \<noteq> ISOLATED" by (simp add: ISOLATED_def)
  have h: "list_all (\<lambda>b. 0 < length b) ?fine" "\<forall>k < length ?fine. ?fine ! k ! 0 = 4"
    by (simp_all add: less_Suc_eq numeral_3_eq_3)
  note T = restrictThenProlong_constant[OF h]
  have d: "\<not> pressure_aggregation ?pd" "length ?fine \<le> length (rhs ?pd)"
    by (simp_all add: examplePolicy_def new_LevelTransferPolicy_def)
  from T[of ?pd sequential_copyOwnerToAll] d
  obtain fd where rd: "restrictThenProlong sequential_copyOwnerToAll 0 ?pd ?fine = Some fd"
    and pd: "\<forall>k < length ?fine. fd ! k ! 0 = 4"
    by blast
  from pd have vd: "fd ! 0 ! 0 = 4" "fd ! 1 ! 0 = 4" "fd ! 2 ! 0 = 4" by simp_all
  have a: "pressure_aggregation exampleAggregating" "prolongDamp exampleAggregating = Some 1"
    "aggregatesMap exampleAggregating = Some ?a" "length ?fine \<le> length ?a"
    "\<forall>k < length ?fine. ?a ! k \<noteq> ISOLATED \<longrightarrow> ?a ! k < length (rhs exampleAggregating)"
    by (simp_all add: exampleAggregating_def less_Suc_eq numeral_3_eq_3)
  from T[of exampleAggregating sequential_copyOwnerToAll ?a] a
  obtain acc where
    ra: "restrictThenProlong sequential_copyOwnerToAll 0 exampleAggregating ?fine
           = Some (sequential_copyOwnerToAll (communication exampleAggregating) acc acc)"
    and pa: "\<forall>k < length ?fine.
                (?a ! k \<noteq> ISOLATED \<longrightarrow>
                   acc ! k ! 0
                     = 0 + foldl (+) 0 (replicate (aggregateSize ?a (length ?fine) (?a ! k)) 4) * 1) \<and>
                (?a ! k = ISOLATED \<longrightarrow> acc ! k ! 0 = 0)"
    by blast
  have sz: "aggregateSize ?a (length ?fine) 0 = 2"
    using iso by (simp add: aggregateSize_def upt_conv_Cons)
  from pa iso sz have va: "acc ! 0 ! 0 = 8" "acc ! 1 ! 0 = 8" "acc ! 2 ! 0 = 0"
    by (simp_all add: numeral_2_eq_2)
  from h(1) d(1) rd vd a(1-3) ra va show ?thesis by blast
qed

end
